theory Spec2Isabelle
  imports
    Main
    "HOL-Library.Sublist"
    "HOL-Library.Char_ord"
    "HOL-Library.List_Lexorder"
    "HOL-Library.AList"
begin

section \<open>Python strings and dictionaries\<close>

text \<open>
  A Python \<open>str\<close> is a \<^typ>\<open>string\<close>; the comparison of two strings (used by \<open>sorted\<close>,
  \<open>min\<close> and \<open>max\<close>) is the lexicographic order of \<^theory_text>\<open>List_Lexorder\<close> over the
  character order of \<^theory_text>\<open>Char_ord\<close>. A Python \<open>dict\<close> keeps its keys unique and in
  insertion order: it is an association list, read with \<^const>\<open>map_of\<close> and written with
  \<^const>\<open>AList.update\<close> (an existing key keeps its position, a new key goes to the end).
\<close>

text \<open>\<open>s.split('/')\<close>: never the empty list; \<open>''.split('/') == ['']\<close>.\<close>

fun split_sep :: "string \<Rightarrow> string list" where
  "split_sep [] = [[]]"
| "split_sep (c # cs) =
     (if c = CHR ''/'' then [] # split_sep cs
      else (case split_sep cs of
              [] \<Rightarrow> [[c]]
            | w # ws \<Rightarrow> (c # w) # ws))"

text \<open>\<open>'/'.join(parts)\<close>.\<close>

fun join_sep :: "string list \<Rightarrow> string" where
  "join_sep [] = []"
| "join_sep [w] = w"
| "join_sep (w # ws) = w @ CHR ''/'' # join_sep ws"

text \<open>\<open>s.endswith('/')\<close>, \<open>s.startswith(p)\<close> is \<^const>\<open>prefix\<close>, and \<open>s.strip('/')\<close>.\<close>

definition endswith_sep :: "string \<Rightarrow> bool" where
  "endswith_sep s \<longleftrightarrow> (s \<noteq> [] \<and> last s = CHR ''/'')"

definition strip_sep :: "string \<Rightarrow> string" where
  "strip_sep s = rev (dropWhile (\<lambda>c. c = CHR ''/'') (rev (dropWhile (\<lambda>c. c = CHR ''/'') s)))"

section \<open>The file tree (\<open>build_file_tree_from_zip\<close>)\<close>

text \<open>
  A node dictionary has the keys \<open>'type'\<close> and \<open>'path'\<close>, and the key \<open>'children'\<close>
  exactly when its type is \<open>'folder'\<close>: the three places that create or change a node
  (the file assignment, the new folder, the promotion of a file) keep it so. The tree
  itself is the dictionary of the top-level names; there is no node object for the root.
\<close>

datatype node =
    is_File: File (node_path: string)
  | is_Folder: Folder (node_path: string) (children: "(string \<times> node) list")

type_synonym tree = "(string \<times> node) list"

text \<open>
  The inner loop \<open>for i, part in enumerate(parts)\<close>, at index \<open>i\<close> with the parts from
  \<open>i\<close> on still to visit. The last part stores a file node over whatever the name held.
  An earlier part creates a folder when the name is new, turns a file node into a folder
  with no children (the promotion), and goes down into the children.
\<close>

fun descend :: "string \<Rightarrow> string list \<Rightarrow> nat \<Rightarrow> string list \<Rightarrow> tree \<Rightarrow> tree" where
  "descend path_str parts i [] current_level = current_level"
| "descend path_str parts i (part # rest) current_level =
     (if rest = [] then AList.update part (File path_str) current_level
      else (case map_of current_level part of
              None \<Rightarrow>
                AList.update part
                  (Folder (join_sep (take (i + 1) parts) @ ''/'')
                     (descend path_str parts (i + 1) rest [])) current_level
            | Some (File _) \<Rightarrow>
                AList.update part
                  (Folder (join_sep (take (i + 1) parts) @ ''/'')
                     (descend path_str parts (i + 1) rest [])) current_level
            | Some (Folder p ch) \<Rightarrow>
                AList.update part
                  (Folder p (descend path_str parts (i + 1) rest ch)) current_level))"

definition add_path :: "string \<Rightarrow> tree \<Rightarrow> tree" where
  "add_path path_str t = (let parts = split_sep path_str in descend path_str parts 0 parts t)"

text \<open>The archive is read through its list of names; names ending in \<open>/\<close> are dropped.\<close>

definition file_names :: "string list \<Rightarrow> string list" where
  "file_names namelist = filter (\<lambda>name. \<not> endswith_sep name) namelist"

definition build_file_tree_from_zip :: "string list \<Rightarrow> tree" where
  "build_file_tree_from_zip namelist = fold add_path (sort (file_names namelist)) []"

text \<open>The paths carried by the file nodes of a tree.\<close>

fun node_files :: "node \<Rightarrow> string list"
  and tree_files :: "tree \<Rightarrow> string list" where
  "node_files (File p) = [p]"
| "node_files (Folder p ch) = tree_files ch"
| "tree_files [] = []"
| "tree_files (e # es) = node_files (snd e) @ tree_files es"

definition file_node_paths :: "tree \<Rightarrow> string set" where
  "file_node_paths t = set (tree_files t)"

text \<open>
  The same file nodes with the names that lead to each from the top of the tree, and the
  uniqueness of the names of every dictionary of a tree (what a Python \<open>dict\<close> gives).
\<close>

fun node_entries :: "node \<Rightarrow> (string list \<times> string) list"
  and tree_entries :: "tree \<Rightarrow> (string list \<times> string) list" where
  "node_entries (File p) = [([], p)]"
| "node_entries (Folder p ch) = tree_entries ch"
| "tree_entries [] = []"
| "tree_entries (e # es) =
     map (\<lambda>kp. (fst e # fst kp, snd kp)) (node_entries (snd e)) @ tree_entries es"

fun unique_keys_node :: "node \<Rightarrow> bool"
  and unique_keys :: "tree \<Rightarrow> bool" where
  "unique_keys_node (File p) = True"
| "unique_keys_node (Folder p ch) = unique_keys ch"
| "unique_keys [] = True"
| "unique_keys (e # es) =
     (fst e \<notin> fst ` set es \<and> unique_keys_node (snd e) \<and> unique_keys es)"

section \<open>Resolving a selection (\<open>get_node_details_from_tree\<close>,
  \<open>collect_final_selected_files\<close>)\<close>

text \<open>
  The loop of \<open>get_node_details_from_tree\<close> over the parts still to visit, with the
  dictionary it looks into and the value of \<open>node_info\<close>. A folder that is not at the
  last part is entered; at the last part the node found is returned; a file before the
  last part, or a name that is not in the dictionary, returns \<open>None\<close>. The
  \<open>return node_info\<close> after the loop is reached only with no parts at all.
\<close>

fun walk_parts :: "string list \<Rightarrow> tree \<Rightarrow> node option \<Rightarrow> node option" where
  "walk_parts [] current_node_dict node_info = node_info"
| "walk_parts (p_part # rest) current_node_dict node_info =
     (case map_of current_node_dict p_part of
        Some n \<Rightarrow>
          (if is_Folder n \<and> rest \<noteq> [] then walk_parts rest (children n) (Some n)
           else if rest = [] then Some n
           else None)
      | None \<Rightarrow> None)"

definition get_node_details_from_tree :: "string \<Rightarrow> tree \<Rightarrow> node option" where
  "get_node_details_from_tree path_key tree_root =
     walk_parts (split_sep (strip_sep path_key)) tree_root None"

text \<open>
  The body of the loop over the selected paths: a file node adds its own path, a folder
  node adds every file name of the archive that starts with the folder's path, a path
  with no node adds nothing.
\<close>

definition select_path :: "tree \<Rightarrow> string list \<Rightarrow> string \<Rightarrow> string set \<Rightarrow> string set" where
  "select_path initial_file_tree all_actual_files_in_zip selected_path_key final_files_for_json =
     (case get_node_details_from_tree selected_path_key initial_file_tree of
        None \<Rightarrow> final_files_for_json
      | Some (File p) \<Rightarrow> insert p final_files_for_json
      | Some (Folder folder_prefix_path ch) \<Rightarrow>
          fold (\<lambda>file_in_zip acc.
                  if prefix folder_prefix_path file_in_zip then insert file_in_zip acc else acc)
            all_actual_files_in_zip final_files_for_json)"

text \<open>
  \<open>user_selected_paths_from_ui\<close> is a Python set, visited in an order the language
  does not fix: the list \<open>selected\<close> is that set in the order of the visit. The
  archive is its list of names.
\<close>

definition collect_final_selected_files :: "string list \<Rightarrow> string list \<Rightarrow> tree \<Rightarrow> string list" where
  "collect_final_selected_files selected namelist initial_file_tree =
     sorted_list_of_set
       (fold (select_path initial_file_tree (file_names namelist)) selected {})"

section \<open>The common prefix (\<open>os.path.commonpath\<close>, \<open>os.path.dirname\<close>)\<close>

datatype py_error = ValueError | IndexError

text \<open>
  The loop of \<open>posixpath.commonpath\<close> that compares the smallest and the largest list
  of components; \<open>s2[i]\<close> beyond the end of \<open>s2\<close> would raise.
\<close>

fun common_components :: "string list \<Rightarrow> string list \<Rightarrow> py_error + string list" where
  "common_components [] s2 = Inr []"
| "common_components (c # s1) [] = Inl IndexError"
| "common_components (c # s1) (d # s2) =
     (if c \<noteq> d then Inr []
      else (case common_components s1 s2 of
              Inl e \<Rightarrow> Inl e
            | Inr common \<Rightarrow> Inr (c # common)))"

definition isabs :: "string \<Rightarrow> bool" where
  "isabs p \<longleftrightarrow> take 1 p = ''/''"

text \<open>
  \<open>os.path.commonpath\<close> of the Python standard library on a POSIX system: an empty
  sequence and a mix of absolute and relative paths raise \<open>ValueError\<close>; empty and
  \<open>.\<close> components are dropped before the comparison.
\<close>

definition commonpath :: "string list \<Rightarrow> py_error + string" where
  "commonpath paths =
     (if paths = [] then Inl ValueError
      else if list_ex (\<lambda>p. isabs p \<noteq> isabs (hd paths)) paths then Inl ValueError
      else
        (let split_paths = map (\<lambda>p. filter (\<lambda>c. c \<noteq> [] \<and> c \<noteq> ''.'') (split_sep p)) paths;
             s1 = Min (set split_paths);
             s2 = Max (set split_paths)
         in (case common_components s1 s2 of
               Inl e \<Rightarrow> Inl e
             | Inr common \<Rightarrow>
                 Inr ((if isabs (hd paths) then ''/'' else []) @ join_sep common))))"

text \<open>\<open>os.path.dirname\<close>: the head up to the last \<open>/\<close>, without its trailing
  separators unless it is made of separators only.\<close>

definition dirname :: "string \<Rightarrow> string" where
  "dirname p =
     (let head = rev (dropWhile (\<lambda>c. c \<noteq> CHR ''/'') (rev p))
      in if head \<noteq> [] \<and> head \<noteq> replicate (length head) CHR ''/''
         then rev (dropWhile (\<lambda>c. c = CHR ''/'') (rev head))
         else head)"

text \<open>The common prefix as \<open>zip_to_json_app.py\<close> computes it.\<close>

definition common_prefix_of :: "string list \<Rightarrow> py_error + string" where
  "common_prefix_of selected_file_paths =
     (case commonpath selected_file_paths of
        Inl e \<Rightarrow> Inl e
      | Inr cp0 \<Rightarrow>
          (let cp1 =
                 (if cp0 \<noteq> [] \<and>
                     \<not> list_all (\<lambda>f_path. prefix (cp0 @ ''/'') f_path \<or> f_path = cp0)
                         (filter (\<lambda>f_path. f_path \<noteq> cp0) selected_file_paths)
                  then dirname cp0 else cp0);
               cp2 = (if cp1 \<noteq> [] \<and> \<not> endswith_sep cp1 then cp1 @ ''/'' else cp1)
           in Inr (if cp2 = ''./'' then [] else cp2)))"

text \<open>The common prefix as \<open>zip2json.py\<close> computes it.\<close>

definition common_prefix_of_zip2json :: "string list \<Rightarrow> py_error + string" where
  "common_prefix_of_zip2json selected_file_paths =
     (case commonpath selected_file_paths of
        Inl e \<Rightarrow> Inl e
      | Inr cp0 \<Rightarrow>
          (let cp2 =
                 (if cp0 \<noteq> [] then
                    (let is_prefix_actually_file =
                           (cp0 \<in> set selected_file_paths \<and> \<not> endswith_sep cp0);
                         cp1 =
                           (if is_prefix_actually_file \<or>
                               \<not> list_all
                                   (\<lambda>f. prefix (cp0 @ (if \<not> endswith_sep cp0 then ''/'' else [])) f)
                                   (filter (\<lambda>f. f \<noteq> cp0) selected_file_paths)
                            then dirname cp0 else cp0)
                     in if cp1 \<noteq> [] \<and> \<not> endswith_sep cp1 then cp1 @ ''/'' else cp1)
                  else cp0)
           in Inr (if cp2 = ''./'' \<or> cp2 = ''.'' then [] else cp2)))"

section \<open>The nested document (\<open>build_nested_json_from_paths\<close>)\<close>

text \<open>A value of the document is the text of a file or a dictionary of further values.\<close>

datatype jval = JStr string | JDict "(string \<times> jval) list"

type_synonym doc = "(string \<times> jval) list"

text \<open>
  The archive's \<open>read\<close> followed by \<open>decode('utf-8', errors='replace')\<close> is a function
  from the path to the decoded text (\<open>Inr\<close>), or to the message of the exception it
  raises (\<open>Inl\<close>). The \<open>except\<close> branch turns the exception into the text stored for
  the file.
\<close>

type_synonym byte_source = "string \<Rightarrow> string + string"

definition file_content_str :: "byte_source \<Rightarrow> string \<Rightarrow> string" where
  "file_content_str read file_path_in_zip =
     (case read file_path_in_zip of
        Inr text \<Rightarrow> text
      | Inl e \<Rightarrow>
          ''Error reading/decoding file '' @ [CHR 0x27] @ file_path_in_zip @ [CHR 0x27]
            @ '': '' @ e @ ''.'')"

definition relative_file_path :: "string \<Rightarrow> string \<Rightarrow> string" where
  "relative_file_path common_prefix file_path_in_zip =
     (if common_prefix \<noteq> [] \<and> prefix common_prefix file_path_in_zip
      then drop (length common_prefix) file_path_in_zip
      else file_path_in_zip)"

text \<open>\<open>path_segments = relative_file_path.split('/')\<close>.\<close>

definition path_segments :: "string \<Rightarrow> string \<Rightarrow> string list" where
  "path_segments common_prefix file_path_in_zip =
     split_sep (relative_file_path common_prefix file_path_in_zip)"

text \<open>
  The loop over the segments in \<open>zip_to_json_app.py\<close>: the last segment stores the
  text; an earlier segment that is absent, or that holds a text, is set to an empty
  dictionary, and the loop goes down into the dictionary of the segment.
\<close>

fun insert_segments :: "string list \<Rightarrow> string \<Rightarrow> doc \<Rightarrow> doc" where
  "insert_segments [] content current_dict_level = current_dict_level"
| "insert_segments (segment # rest) content current_dict_level =
     (if rest = [] then AList.update segment (JStr content) current_dict_level
      else (case map_of current_dict_level segment of
              Some (JDict sub) \<Rightarrow>
                AList.update segment (JDict (insert_segments rest content sub)) current_dict_level
            | _ \<Rightarrow>
                AList.update segment (JDict (insert_segments rest content [])) current_dict_level))"

text \<open>The same loop in \<open>zip2json.py\<close>, which skips every empty segment first.\<close>

fun insert_segments_zip2json :: "string list \<Rightarrow> string \<Rightarrow> doc \<Rightarrow> doc" where
  "insert_segments_zip2json [] content current_dict_level = current_dict_level"
| "insert_segments_zip2json (segment # rest) content current_dict_level =
     (if segment = [] then insert_segments_zip2json rest content current_dict_level
      else if rest = [] then AList.update segment (JStr content) current_dict_level
      else (case map_of current_dict_level segment of
              Some (JDict sub) \<Rightarrow>
                AList.update segment (JDict (insert_segments_zip2json rest content sub))
                  current_dict_level
            | _ \<Rightarrow>
                AList.update segment (JDict (insert_segments_zip2json rest content []))
                  current_dict_level))"

text \<open>One round of the loop over the selected files, and the loop.\<close>

definition assemble_file :: "string \<Rightarrow> byte_source \<Rightarrow> string \<Rightarrow> doc \<Rightarrow> doc" where
  "assemble_file common_prefix read file_path_in_zip output_json_structure =
     insert_segments (split_sep (relative_file_path common_prefix file_path_in_zip))
       (file_content_str read file_path_in_zip) output_json_structure"

definition assemble_file_zip2json :: "string \<Rightarrow> byte_source \<Rightarrow> string \<Rightarrow> doc \<Rightarrow> doc" where
  "assemble_file_zip2json common_prefix read file_path_in_zip output_json_structure =
     insert_segments_zip2json (split_sep (relative_file_path common_prefix file_path_in_zip))
       (file_content_str read file_path_in_zip) output_json_structure"

definition assemble :: "string \<Rightarrow> byte_source \<Rightarrow> string list \<Rightarrow> doc \<Rightarrow> doc" where
  "assemble common_prefix read selected_file_paths output_json_structure =
     fold (assemble_file common_prefix read) selected_file_paths output_json_structure"

definition assemble_zip2json :: "string \<Rightarrow> byte_source \<Rightarrow> string list \<Rightarrow> doc \<Rightarrow> doc" where
  "assemble_zip2json common_prefix read selected_file_paths output_json_structure =
     fold (assemble_file_zip2json common_prefix read) selected_file_paths output_json_structure"

text \<open>
  \<open>build_nested_json_from_paths\<close> of \<open>zip_to_json_app.py\<close> and of \<open>zip2json.py\<close>:
  no selected file gives the empty document; an exception of \<open>os.path.commonpath\<close>, which
  is called outside the \<open>try\<close>, leaves the function.
\<close>

definition build_nested_json_from_paths :: "string list \<Rightarrow> byte_source \<Rightarrow> py_error + doc" where
  "build_nested_json_from_paths selected_file_paths read =
     (if selected_file_paths = [] then Inr []
      else (case common_prefix_of selected_file_paths of
              Inl e \<Rightarrow> Inl e
            | Inr common_prefix \<Rightarrow> Inr (assemble common_prefix read selected_file_paths [])))"

definition build_nested_json_from_paths_zip2json ::
    "string list \<Rightarrow> byte_source \<Rightarrow> py_error + doc" where
  "build_nested_json_from_paths_zip2json selected_file_paths read =
     (if selected_file_paths = [] then Inr []
      else (case common_prefix_of_zip2json selected_file_paths of
              Inl e \<Rightarrow> Inl e
            | Inr common_prefix \<Rightarrow>
                Inr (assemble_zip2json common_prefix read selected_file_paths [])))"

text \<open>The value found in a document by following a list of keys.\<close>

fun val_at :: "jval \<Rightarrow> string list \<Rightarrow> jval option" where
  "val_at v [] = Some v"
| "val_at (JStr s) (k # ks) = None"
| "val_at (JDict d) (k # ks) = (case map_of d k of None \<Rightarrow> None | Some v \<Rightarrow> val_at v ks)"

definition doc_at :: "doc \<Rightarrow> string list \<Rightarrow> jval option" where
  "doc_at d ks = val_at (JDict d) ks"

definition is_text :: "jval option \<Rightarrow> bool" where
  "is_text r = (case r of Some (JStr s) \<Rightarrow> True | _ \<Rightarrow> False)"

text \<open>
  Both loops over the segments do the same two things: they make a dictionary of every
  name of a list of directory names, and then store a text under a last name, or store
  nothing. \<open>put\<close> is that common form; the two loops are proved equal to it below.
\<close>

fun put :: "string list \<Rightarrow> (string \<times> string) option \<Rightarrow> doc \<Rightarrow> doc" where
  "put [] None d = d"
| "put [] (Some (k, c)) d = AList.update k (JStr c) d"
| "put (s # ss) leaf d =
     (case map_of d s of
        Some (JDict sub) \<Rightarrow> AList.update s (JDict (put ss leaf sub)) d
      | _ \<Rightarrow> AList.update s (JDict (put ss leaf [])) d)"

definition non_empty_segments :: "string list \<Rightarrow> string list" where
  "non_empty_segments segs = filter (\<lambda>segment. segment \<noteq> []) segs"

section \<open>Serialising and the whole conversion (\<open>json.dumps\<close>)\<close>

text \<open>
  \<open>json.dumps(doc, indent=2)\<close> on a document of nested dictionaries and texts: an
  empty dictionary is \<open>{}\<close>; the items of a dictionary are written in insertion order,
  one per line, indented by two spaces per level. The encoder of a string literal
  belongs to the standard library and is the parameter \<open>enc\<close>.
\<close>

definition newline_indent :: "nat \<Rightarrow> string" where
  "newline_indent level = CHR 0x0A # replicate (2 * level) CHR '' ''"

fun dumps_val :: "(string \<Rightarrow> string) \<Rightarrow> nat \<Rightarrow> jval \<Rightarrow> string"
  and dumps_items :: "(string \<Rightarrow> string) \<Rightarrow> nat \<Rightarrow> (string \<times> jval) list \<Rightarrow> string" where
  "dumps_val enc level (JStr s) = enc s"
| "dumps_val enc level (JDict items) =
     (if items = [] then ''{}''
      else ''{'' @ newline_indent (level + 1) @ dumps_items enc (level + 1) items
           @ newline_indent level @ ''}'')"
| "dumps_items enc level [] = []"
| "dumps_items enc level (item # items) =
     enc (fst item) @ '': '' @ dumps_val enc level (snd item)
       @ (if items = [] then [] else '','' @ newline_indent level @ dumps_items enc level items)"

definition json_dumps :: "(string \<Rightarrow> string) \<Rightarrow> doc \<Rightarrow> string" where
  "json_dumps enc d = dumps_val enc 0 (JDict d)"

text \<open>
  The conversion behind the button: resolve the selection, stop with a warning and no
  output when no file is selected, assemble, and serialise. An exception of the
  assembly is caught by the caller and shown; there is no output then either.
\<close>

datatype conversion = No_Selection | Failed py_error | Json_Text string

definition convert ::
    "(string \<Rightarrow> string) \<Rightarrow> tree \<Rightarrow> string list \<Rightarrow> string list \<Rightarrow> byte_source \<Rightarrow> conversion" where
  "convert enc initial_file_tree selected namelist read =
     (let selected_files_for_json =
            collect_final_selected_files selected namelist initial_file_tree
      in if selected_files_for_json = [] then No_Selection
         else (case build_nested_json_from_paths selected_files_for_json read of
                 Inl e \<Rightarrow> Failed e
               | Inr json_output_cache \<Rightarrow> Json_Text (json_dumps enc json_output_cache)))"

section \<open>What a selected path adds, and a small archive\<close>

text \<open>What one selected path adds to the result, read off the three branches of the loop.\<close>

definition contribution :: "tree \<Rightarrow> string list \<Rightarrow> string \<Rightarrow> string set" where
  "contribution t files key =
     (case get_node_details_from_tree key t of
        None \<Rightarrow> {}
      | Some (File p) \<Rightarrow> {p}
      | Some (Folder p ch) \<Rightarrow> {f \<in> set files. prefix p f})"

text \<open>
  An archive with a directory entry and three files, the tree built from it, and a byte
  source that fails on \<open>x.bin\<close>.
\<close>

definition names0 :: "string list" where
  "names0 = [''x.bin'', ''src/b/c.py'', ''src/'', ''src/a.py'']"

definition tree0 :: tree where
  "tree0 =
     [(''src'', Folder ''src/''
         [(''a.py'', File ''src/a.py''),
          (''b'', Folder ''src/b/'' [(''c.py'', File ''src/b/c.py'')])]),
      (''x.bin'', File ''x.bin'')]"

definition read0 :: byte_source where
  "read0 p = (if p = ''x.bin'' then Inl ''bad entry'' else Inr (''text of '' @ p))"

text \<open>An archive with two absolute file names and a relative one.\<close>

definition names_abs :: "string list" where
  "names_abs = [''/b/c'', ''/a'', ''d'']"

text \<open>Two selections of files: one with a file that is also a directory, one with \<open>x.bin\<close>.\<close>

definition clash_files :: "string list" where
  "clash_files = [''x/a'', ''x/a/b'', ''y'']"

definition bin_files :: "string list" where
  "bin_files = [''src/a.py'', ''x.bin'', ''y/z.txt'']"

section \<open>Building the tree\<close>

subsection \<open>Splitting and joining paths\<close>

lemma split_sep_nonempty [simp]: "split_sep s \<noteq> []"
  by (induction s) (auto split: list.splits)

lemma join_sep_Cons_Cons: "join_sep ((c # w) # ws) = c # join_sep (w # ws)"
  by (cases ws) auto

lemma join_split [simp]: "join_sep (split_sep s) = s"
proof (induction s)
  case Nil show ?case by simp
next
  case (Cons c cs)
  then show ?case
    by (cases "split_sep cs") (auto simp: join_sep_Cons_Cons split: list.splits)
qed

lemma split_append_sep: "split_sep (a @ CHR ''/'' # b) = split_sep a @ split_sep b"
  by (induction a) (auto split: list.splits)

lemma join_append: "xs \<noteq> [] \<Longrightarrow> ys \<noteq> [] \<Longrightarrow> join_sep (xs @ ys) = join_sep xs @ CHR ''/'' # join_sep ys"
  by (induction xs rule: join_sep.induct) (auto simp: neq_Nil_conv)

lemma less_append_Cons: "xs < xs @ (y # ys)" for xs :: "'a::linorder list"
  by (induction xs) auto

lemma strict_prefix_split_iff:
  "strict_prefix (split_sep p) (split_sep r) \<longleftrightarrow> prefix (p @ ''/'') r"
proof
  assume "strict_prefix (split_sep p) (split_sep r)"
  then obtain z zs where "split_sep r = split_sep p @ z # zs"
    by (auto elim: strict_prefixE')
  then have "join_sep (split_sep r) = join_sep (split_sep p) @ CHR ''/'' # join_sep (z # zs)"
    by (simp add: join_append)
  then have "r = p @ CHR ''/'' # join_sep (z # zs)" by simp
  then show "prefix (p @ ''/'') r" by (simp add: prefix_def)
next
  assume "prefix (p @ ''/'') r"
  then obtain s where "r = p @ CHR ''/'' # s" by (auto simp: prefix_def)
  then have "split_sep r = split_sep p @ split_sep s" by (simp add: split_append_sep)
  then show "strict_prefix (split_sep p) (split_sep r)"
    by (simp add: strict_prefix_def)
qed

lemma prefix_sep_less: "prefix (p @ ''/'') r \<Longrightarrow> p < r"
  by (auto simp: prefix_def less_append_Cons)

subsection \<open>The file nodes after one more path\<close>

lemma node_files_entries: "node_files n = map snd (node_entries n)"
  and tree_files_entries: "tree_files t = map snd (tree_entries t)"
  by (induction n and t rule: node_files_tree_files.induct) (simp_all add: comp_def)

lemma set_tree_entries:
  "set (tree_entries t) = {(k # ks, p) | k n ks p. (k, n) \<in> set t \<and> (ks, p) \<in> set (node_entries n)}"
  by (induction t) (auto, force+)

lemma unique_keys_distinct: "unique_keys t \<Longrightarrow> distinct (map fst t)"
  by (induction t) auto

lemma unique_keys_mem: "unique_keys t \<Longrightarrow> (k, n) \<in> set t \<Longrightarrow> unique_keys_node n"
  by (induction t) auto

lemma set_update: "distinct (map fst t) \<Longrightarrow> set (AList.update k v t) = insert (k, v) {e \<in> set t. fst e \<noteq> k}"
  by (induction t) (auto simp: rev_image_eqI)

lemma unique_keys_update:
  "unique_keys t \<Longrightarrow> unique_keys_node v \<Longrightarrow> unique_keys (AList.update k v t)"
  by (induction t) (auto simp: AList.dom_update)

lemma entries_update:
  assumes "unique_keys t"
  shows "set (tree_entries (AList.update k v t)) =
    {(k # ks, p) | ks p. (ks, p) \<in> set (node_entries v)} \<union>
    {(ks, p) \<in> set (tree_entries t). \<forall>ks'. ks \<noteq> k # ks'}"
  using unique_keys_distinct[OF assms]
  by (auto simp: set_tree_entries set_update)

lemma map_of_entries_None:
  "map_of t k = None \<Longrightarrow> (k # ks, p) \<notin> set (tree_entries t)"
  by (auto simp: set_tree_entries map_of_eq_None_iff rev_image_eqI)

lemma map_of_entries_Some:
  "unique_keys t \<Longrightarrow> map_of t k = Some n \<Longrightarrow>
   (k # ks, p) \<in> set (tree_entries t) \<longleftrightarrow> (ks, p) \<in> set (node_entries n)"
proof -
  assume u: "unique_keys t" and s: "map_of t k = Some n"
  have "(k, m) \<in> set t \<longleftrightarrow> m = n" for m
    using map_of_eq_Some_iff[OF unique_keys_distinct[OF u], of k m] s by auto
  then show ?thesis
    by (auto simp: set_tree_entries)
qed

lemma entries_Cons: "e \<in> set (tree_entries t) \<Longrightarrow> \<exists>k ks p. e = (k # ks, p)"
  by (auto simp: set_tree_entries)

lemma descend_entries:
  "unique_keys t \<Longrightarrow> rest \<noteq> [] \<Longrightarrow>
   unique_keys (descend path_str parts i rest t) \<and>
   set (tree_entries (descend path_str parts i rest t)) =
     insert (rest, path_str)
       {(ks, p) \<in> set (tree_entries t). \<not> prefix ks rest \<and> \<not> prefix rest ks}"
proof (induction rest arbitrary: i t)
  case Nil
  then show ?case by simp
next
  case (Cons part rest)
  show ?case
  proof (cases "rest = []")
    case True
    have "set (tree_entries (AList.update part (File path_str) t)) =
      insert ([part], path_str) {(ks, p) \<in> set (tree_entries t). \<not> prefix ks [part] \<and> \<not> prefix [part] ks}"
      unfolding entries_update[OF Cons.prems(1)]
      by (auto dest: entries_Cons simp: prefix_Cons)
    with True Cons.prems show ?thesis
      by (simp add: unique_keys_update)
  next
    case False
    note ne = False
    show ?thesis
    proof (cases "map_of t part")
      case None
      have e: "unique_keys []" by simp
      note ih = Cons.IH[OF e ne, of "i + 1"]
      have "set (tree_entries (AList.update part (Folder (join_sep (take (i + 1) parts) @ ''/'')
                     (descend path_str parts (i + 1) rest [])) t)) =
        insert (part # rest, path_str) {(ks, p) \<in> set (tree_entries t). \<not> prefix ks (part # rest) \<and> \<not> prefix (part # rest) ks}"
        unfolding entries_update[OF Cons.prems(1)] using ih map_of_entries_None[OF None]
        by (auto dest: entries_Cons simp: prefix_Cons)
      with None ne ih Cons.prems show ?thesis
        by (simp add: unique_keys_update)
    next
      case (Some n)
      show ?thesis
      proof (cases n)
        case (File q)
        have e: "unique_keys []" by simp
        note ih = Cons.IH[OF e ne, of "i + 1"]
        have "set (tree_entries (AList.update part (Folder (join_sep (take (i + 1) parts) @ ''/'')
                     (descend path_str parts (i + 1) rest [])) t)) =
          insert (part # rest, path_str) {(ks, p) \<in> set (tree_entries t). \<not> prefix ks (part # rest) \<and> \<not> prefix (part # rest) ks}"
          unfolding entries_update[OF Cons.prems(1)]
          using ih map_of_entries_Some[OF Cons.prems(1) Some] File
          by (auto dest: entries_Cons simp: prefix_Cons)
        with Some File ne ih Cons.prems show ?thesis
          by (simp add: unique_keys_update)
      next
        case (Folder q ch)
        have e: "unique_keys ch"
          using unique_keys_mem[OF Cons.prems(1) map_of_SomeD[OF Some]] Folder by simp
        note ih = Cons.IH[OF e ne, of "i + 1"]
        have "set (tree_entries (AList.update part (Folder q
                     (descend path_str parts (i + 1) rest ch)) t)) =
          insert (part # rest, path_str) {(ks, p) \<in> set (tree_entries t). \<not> prefix ks (part # rest) \<and> \<not> prefix (part # rest) ks}"
          unfolding entries_update[OF Cons.prems(1)]
          using ih map_of_entries_Some[OF Cons.prems(1) Some] Folder
          by (auto dest: entries_Cons simp: prefix_Cons)
        with Some Folder ne ih Cons.prems show ?thesis
          by (simp add: unique_keys_update)
      qed
    qed
  qed
qed

lemma add_path_entries:
  assumes "unique_keys t"
  shows "unique_keys (add_path p t)"
    and "set (tree_entries (add_path p t)) =
     insert (split_sep p, p)
       {(ks, q) \<in> set (tree_entries t). \<not> prefix ks (split_sep p) \<and> \<not> prefix (split_sep p) ks}"
  using descend_entries[where t = t and rest = "split_sep p" and path_str = p
      and parts = "split_sep p" and i = 0, OF assms split_sep_nonempty]
  by (simp_all add: add_path_def Let_def)

lemma split_sep_inj: "split_sep p = split_sep q \<Longrightarrow> p = q"
  by (metis join_split)

lemma fold_add_path_entries:
  "sorted ps \<Longrightarrow>
   unique_keys (fold add_path ps []) \<and>
   set (tree_entries (fold add_path ps [])) =
     {(split_sep p, p) | p. p \<in> set ps \<and> (\<forall>r \<in> set ps. \<not> prefix (p @ ''/'') r)}"
proof (induction ps rule: rev_induct)
  case Nil
  then show ?case by simp
next
  case (snoc x ps)
  from snoc.prems have sorted: "sorted ps" and le: "\<forall>q \<in> set ps. q \<le> x"
    by (auto simp: sorted_append)
  from snoc.IH[OF sorted] have uk: "unique_keys (fold add_path ps [])"
    and ent: "set (tree_entries (fold add_path ps [])) =
      {(split_sep p, p) | p. p \<in> set ps \<and> (\<forall>r \<in> set ps. \<not> prefix (p @ ''/'') r)}"
    by simp_all
  have no_ext: "\<not> prefix (x @ ''/'') q" if "q \<in> set ps" for q
    using prefix_sep_less[of x q] le that by auto
  have x_self: "\<not> prefix (x @ ''/'') x"
    using prefix_sep_less[of x x] by auto
  have comparable: "prefix (split_sep q) (split_sep x) \<or> prefix (split_sep x) (split_sep q)
      \<longleftrightarrow> q = x \<or> prefix (q @ ''/'') x" if "q \<in> set ps" for q
    using no_ext[OF that] strict_prefix_split_iff[of q x] strict_prefix_split_iff[of x q]
    by (auto simp: strict_prefix_def dest: split_sep_inj)
  have "set (tree_entries (add_path x (fold add_path ps []))) =
     {(split_sep p, p) | p. p \<in> set (ps @ [x]) \<and> (\<forall>r \<in> set (ps @ [x]). \<not> prefix (p @ ''/'') r)}"
    unfolding add_path_entries(2)[OF uk] ent
    using comparable no_ext x_self by auto
  with add_path_entries(1)[OF uk] show ?case by simp
qed


subsection \<open>Two small archives\<close>

lemma sort_a_ab: "sort [''a'', ''a/b''] = [''a'', ''a/b'']"
  by code_simp

lemma sort_ab_a: "sort [''a/b'', ''a''] = [''a'', ''a/b'']"
  by code_simp

lemma build_a_ab:
  "build_file_tree_from_zip [''a'', ''a/b''] =
     [(''a'', Folder ''a/'' [(''b'', File ''a/b'')])]"
  by (simp add: build_file_tree_from_zip_def file_names_def endswith_sep_def sort_a_ab
      add_path_def)

text \<open>
  C8. Building from \<open>["a", "a/b"]\<close> gives a root with the single folder \<open>a\<close> of path
  \<open>a/\<close>, which holds exactly the file \<open>b\<close> of path \<open>a/b\<close>; building from
  \<open>["a/b", "a"]\<close> gives the same tree, since the names are sorted first.
\<close>

theorem C8_promotion_order_insensitive:
  "build_file_tree_from_zip [''a'', ''a/b''] =
     [(''a'', Folder ''a/'' [(''b'', File ''a/b'')])]
   \<and> build_file_tree_from_zip [''a/b'', ''a''] =
     build_file_tree_from_zip [''a'', ''a/b'']"
  by (simp add: build_file_tree_from_zip_def file_names_def endswith_sep_def sort_a_ab
      sort_ab_a add_path_def)

text \<open>
  C1, as the code has it. The set of the paths carried by the file nodes of the built
  tree is the set of the file names of the archive (the names that do not end in \<open>/\<close>)
  that are not the directory of another file name: a name \<open>p\<close> with another name
  starting with \<open>p/\<close> is promoted to a folder and carries no file any more.
\<close>

theorem C1_file_node_paths:
  "file_node_paths (build_file_tree_from_zip namelist) =
     {p \<in> set (file_names namelist).
        \<forall>q \<in> set (file_names namelist). \<not> prefix (p @ ''/'') q}"
proof -
  have "sorted (sort (file_names namelist))" by simp
  from fold_add_path_entries[OF this] show ?thesis
    by (auto simp: file_node_paths_def build_file_tree_from_zip_def tree_files_entries image_iff)
qed

lemma file_names_a_ab_c: "file_names [''a'', ''a/b'', ''c''] = [''a'', ''a/b'', ''c'']"
  by (simp add: file_names_def endswith_sep_def)

lemma survivors_a_ab_c:
  "{p \<in> set [''a'', ''a/b'', ''c''].
      \<forall>q \<in> set [''a'', ''a/b'', ''c'']. \<not> prefix (p @ ''/'') q} = {''a/b'', ''c''}"
  unfolding set_filter[symmetric] Ball_set by simp

theorem C1_file_node_paths_witness:
  "file_node_paths (build_file_tree_from_zip [''a'', ''a/b'', ''c'']) = {''a/b'', ''c''}"
  using C1_file_node_paths[of "[''a'', ''a/b'', ''c'']"]
  unfolding file_names_a_ab_c survivors_a_ab_c .

text \<open>
  C1 as stated fails: \<open>["a", "a/b"]\<close> is non-empty, sorted and without duplicates, and
  the file nodes of its tree carry \<open>a/b\<close> only.
\<close>

theorem C1_counterexample:
  "[''a'', ''a/b''] \<noteq> [] \<and> distinct [''a'', ''a/b''] \<and> sort [''a'', ''a/b''] = [''a'', ''a/b'']
   \<and> file_node_paths (build_file_tree_from_zip [''a'', ''a/b'']) \<noteq> set [''a'', ''a/b'']"
  by (simp add: build_a_ab file_node_paths_def sort_a_ab)

section \<open>Resolving a selection\<close>

subsection \<open>Stripping the separators\<close>

lemma strip_sep_leading [simp]: "strip_sep (CHR ''/'' # p) = strip_sep p"
  by (simp add: strip_sep_def)

lemma strip_sep_trailing [simp]: "strip_sep (p @ ''/'') = strip_sep p"
proof (cases "\<forall>c \<in> set p. c = CHR ''/''")
  case True
  then have a: "dropWhile (\<lambda>c. c = CHR ''/'') p = []"
    by simp
  from True have b: "dropWhile (\<lambda>c. c = CHR ''/'') (p @ ''/'') = []"
    unfolding dropWhile_eq_Nil_conv by auto
  show ?thesis unfolding strip_sep_def a b ..
next
  case False
  then have c: "dropWhile (\<lambda>c. c = CHR ''/'') (p @ ''/'') = dropWhile (\<lambda>c. c = CHR ''/'') p @ ''/''"
    by (auto simp: dropWhile_append)
  show ?thesis unfolding strip_sep_def c by simp
qed

lemma fold_insert_if: "fold (\<lambda>f acc. if P f then insert f acc else acc) xs A = A \<union> {f \<in> set xs. P f}"
  by (induction xs arbitrary: A) auto

lemma select_path_contribution:
  "select_path t files key acc = acc \<union> contribution t files key"
  by (auto simp: select_path_def contribution_def fold_insert_if split: option.splits node.splits)

lemma fold_select_path:
  "fold (select_path t files) sel acc = acc \<union> (\<Union>key \<in> set sel. contribution t files key)"
  by (induction sel arbitrary: acc) (auto simp: select_path_contribution)

lemma finite_contribution: "finite (contribution t files key)"
  by (auto simp: contribution_def split: option.splits node.splits)

lemma collect_set:
  "set (collect_final_selected_files sel names t) =
     (\<Union>key \<in> set sel. contribution t (file_names names) key)"
  by (simp add: collect_final_selected_files_def fold_select_path finite_contribution)

lemma collect_sorted: "sorted (collect_final_selected_files sel names t)"
  and collect_distinct: "distinct (collect_final_selected_files sel names t)"
  by (simp_all add: collect_final_selected_files_def)

lemma collect_cong:
  "(\<Union>key \<in> set sel. contribution t (file_names names) key) =
   (\<Union>key \<in> set sel'. contribution t (file_names names) key) \<Longrightarrow>
   collect_final_selected_files sel names t = collect_final_selected_files sel' names t"
  by (simp add: collect_final_selected_files_def fold_select_path)

lemma collect_set_cong:
  "set sel = set sel' \<Longrightarrow>
   collect_final_selected_files sel names t = collect_final_selected_files sel' names t"
  by (rule collect_cong) simp

lemma collect_unresolved:
  assumes "get_node_details_from_tree key t = None" "set sel' = insert key (set sel)"
  shows "collect_final_selected_files sel' names t = collect_final_selected_files sel names t"
  by (rule collect_cong) (simp add: assms contribution_def)

lemma descend_keys:
  "rest \<noteq> [] \<Longrightarrow> fst ` set (descend path_str parts i rest t) = insert (hd rest) (fst ` set t)"
  by (cases rest) (auto simp: AList.dom_update split: option.splits node.splits)

lemma add_path_keys: "fst ` set (add_path p t) = insert (hd (split_sep p)) (fst ` set t)"
  by (simp add: add_path_def Let_def descend_keys)

lemma fold_add_path_keys:
  "fst ` set (fold add_path ps t) = fst ` set t \<union> (\<lambda>p. hd (split_sep p)) ` set ps"
  by (induction ps arbitrary: t) (auto simp: add_path_keys)

lemma hd_split_empty: "hd (split_sep p) = [] \<longleftrightarrow> p = [] \<or> isabs p"
  by (cases p) (auto simp: isabs_def split: list.splits)

lemma build_no_empty_key:
  assumes "\<forall>n \<in> set (file_names names). n \<noteq> [] \<and> \<not> isabs n"
  shows "map_of (build_file_tree_from_zip names) [] = None"
proof -
  have "[] \<notin> fst ` set (build_file_tree_from_zip names)"
    using assms hd_split_empty
    by (auto simp: build_file_tree_from_zip_def fold_add_path_keys dest: sym)
  then show ?thesis by (simp add: map_of_eq_None_iff)
qed

lemma get_root_None: "map_of t [] = None \<Longrightarrow> get_node_details_from_tree [] t = None"
  by (simp add: get_node_details_from_tree_def strip_sep_def)

subsection \<open>The small archive\<close>

lemma build0: "build_file_tree_from_zip names0 = tree0"
  by code_simp

lemma get0:
  "get_node_details_from_tree ''src/'' tree0 =
     Some (Folder ''src/'' [(''a.py'', File ''src/a.py''),
                           (''b'', Folder ''src/b/'' [(''c.py'', File ''src/b/c.py'')])])"
  by code_simp

lemma fn0: "file_names names0 = [''x.bin'', ''src/b/c.py'', ''src/a.py'']"
  by code_simp

lemma pre0: "{f \<in> set [''x.bin'', ''src/b/c.py'', ''src/a.py'']. prefix ''src/'' f} = {''src/b/c.py'', ''src/a.py''}"
  unfolding set_filter[symmetric] by simp

lemma get_x_bin_y: "get_node_details_from_tree ''x.bin/y'' tree0 = None"
  by code_simp

lemma names0_relative: "\<forall>n \<in> set (file_names names0). n \<noteq> [] \<and> \<not> isabs n"
  unfolding fn0 by (simp add: isabs_def)

subsection \<open>The top-level name \<open>""\<close> of a built tree\<close>

lemma get_root: "get_node_details_from_tree [] t = map_of t []"
  by (simp add: get_node_details_from_tree_def strip_sep_def split: option.splits)

lemma descend_top:
  assumes "rest \<noteq> []"
  shows "map_of (descend path_str parts i rest t) k =
     (if k = hd rest
      then Some (if tl rest = [] then File path_str
                 else (case map_of t (hd rest) of
                         Some (Folder p ch) \<Rightarrow> Folder p (descend path_str parts (i + 1) (tl rest) ch)
                       | _ \<Rightarrow> Folder (join_sep (take (i + 1) parts) @ ''/'')
                                (descend path_str parts (i + 1) (tl rest) [])))
      else map_of t k)"
  using assms
  by (cases rest) (auto simp: update_conv' split: option.splits node.splits)

lemma take1_split: "take (Suc 0) (split_sep q) = [hd (split_sep q)]"
  by (cases "split_sep q") simp_all

lemma single_part: "tl (split_sep q) = [] \<Longrightarrow> hd (split_sep q) = q"
proof -
  assume "tl (split_sep q) = []"
  then have "split_sep q = [hd (split_sep q)]"
    by (cases "split_sep q") simp_all
  then have "join_sep (split_sep q) = hd (split_sep q)"
    by (metis join_sep.simps(2))
  then show ?thesis by simp
qed

lemma add_path_top:
  assumes "\<And>k n. map_of t k = Some n \<Longrightarrow>
      node_path n = k @ (if is_Folder n then ''/'' else [])"
    and "map_of (add_path q t) k = Some n"
  shows "node_path n = k @ (if is_Folder n then ''/'' else [])"
proof (cases "k = hd (split_sep q)")
  case False
  with assms show ?thesis
    by (simp add: add_path_def Let_def descend_top)
next
  case True
  show ?thesis
  proof (cases "tl (split_sep q) = []")
    case single: True
    with True assms(2) single_part[OF single] show ?thesis
      by (auto simp: add_path_def Let_def descend_top)
  next
    case more: False
    show ?thesis
    proof (cases "\<exists>p ch. map_of t k = Some (Folder p ch)")
      case folder: True
      then obtain p ch where f: "map_of t k = Some (Folder p ch)" by blast
      from assms(1)[OF f] have "p = k @ ''/''" by simp
      with True more f assms(2) show ?thesis
        by (auto simp: add_path_def Let_def descend_top)
    next
      case nofolder: False
      with True more assms(2) show ?thesis
        by (auto simp: add_path_def Let_def descend_top take1_split
            split: option.splits node.splits)
    qed
  qed
qed

lemma fold_add_path_top:
  "(\<And>k n. map_of t k = Some n \<Longrightarrow> node_path n = k @ (if is_Folder n then ''/'' else [])) \<Longrightarrow>
   map_of (fold add_path ps t) k = Some n \<Longrightarrow>
   node_path n = k @ (if is_Folder n then ''/'' else [])"
proof (induction ps arbitrary: t k n)
  case Nil
  then show ?case by simp
next
  case (Cons q ps)
  show ?case
  proof (rule Cons.IH[of "add_path q t"])
    show "node_path n' = k' @ (if is_Folder n' then ''/'' else [])"
      if "map_of (add_path q t) k' = Some n'" for k' n'
      using add_path_top[OF Cons.prems(1) that] .
    show "map_of (fold add_path ps (add_path q t)) k = Some n"
      using Cons.prems(2) by simp
  qed
qed

lemma build_top:
  "map_of (build_file_tree_from_zip names) k = Some n \<Longrightarrow>
   node_path n = k @ (if is_Folder n then ''/'' else [])"
  unfolding build_file_tree_from_zip_def
  by (rule fold_add_path_top[of "[]"]) simp_all

lemma build_empty_key_iff:
  "map_of (build_file_tree_from_zip names) [] = None \<longleftrightarrow>
   (\<forall>n \<in> set (file_names names). n \<noteq> [] \<and> \<not> isabs n)"
proof
  assume "map_of (build_file_tree_from_zip names) [] = None"
  then have "[] \<notin> (\<lambda>p. hd (split_sep p)) ` set (file_names names)"
    by (simp add: map_of_eq_None_iff build_file_tree_from_zip_def fold_add_path_keys)
  then show "\<forall>n \<in> set (file_names names). n \<noteq> [] \<and> \<not> isabs n"
    using hd_split_empty by (metis image_eqI)
qed (rule build_no_empty_key)

lemma isabs_prefix: "isabs f \<longleftrightarrow> prefix ''/'' f"
  by (cases f) (auto simp: isabs_def)

lemma build_entries:
  "unique_keys (build_file_tree_from_zip names)"
  "set (tree_entries (build_file_tree_from_zip names)) =
     {(split_sep p, p) | p. p \<in> set (file_names names)
        \<and> (\<forall>r \<in> set (file_names names). \<not> prefix (p @ ''/'') r)}"
  using fold_add_path_entries[of "sort (file_names names)"]
  by (simp_all add: build_file_tree_from_zip_def)

lemma entry_at_top:
  assumes "unique_keys t" "(k # ks, p) \<in> set (tree_entries t)"
  shows "\<exists>n. map_of t k = Some n \<and> (ks, p) \<in> set (node_entries n)"
proof -
  from assms(2) obtain n where n: "(k, n) \<in> set t" "(ks, p) \<in> set (node_entries n)"
    by (auto simp: set_tree_entries)
  from n(1) unique_keys_distinct[OF assms(1)] have "map_of t k = Some n"
    by simp
  with n(2) show ?thesis by blast
qed

lemma longest_absolute:
  assumes "q \<in> set fs" "isabs q"
  shows "\<exists>m \<in> set fs. isabs m \<and> (\<forall>r \<in> set fs. \<not> prefix (m @ ''/'') r)"
proof -
  let ?A = "{f \<in> set fs. isabs f}"
  have fin: "finite (length ` ?A)" and ne: "length ` ?A \<noteq> {}"
    using assms by auto
  from Max_in[OF fin ne] obtain m where m: "m \<in> ?A" "length m = Max (length ` ?A)"
    by auto
  have "\<not> prefix (m @ ''/'') r" if "r \<in> set fs" for r
  proof
    assume p: "prefix (m @ ''/'') r"
    with m(1) have "isabs r"
      by (auto simp: isabs_prefix prefix_def)
    with that have "length r \<le> Max (length ` ?A)"
      using fin by (intro Max_ge) auto
    moreover from p have "length m < length r"
      by (auto simp: prefix_def)
    ultimately show False using m(2) by simp
  qed
  with m(1) show ?thesis by blast
qed

lemma build_root_folder_iff:
  "(\<exists>p ch. map_of (build_file_tree_from_zip names) [] = Some (Folder p ch)) \<longleftrightarrow>
   (\<exists>q \<in> set (file_names names). isabs q)"
proof
  assume "\<exists>q \<in> set (file_names names). isabs q"
  then obtain m where m: "m \<in> set (file_names names)" "isabs m"
      "\<forall>r \<in> set (file_names names). \<not> prefix (m @ ''/'') r"
    using longest_absolute by blast
  from m(2) obtain m' where m': "m = CHR ''/'' # m'"
    by (cases m) (auto simp: isabs_def)
  then obtain w ws where split: "split_sep m = [] # w # ws"
    by (cases "split_sep m'") auto
  from m have "(split_sep m, m) \<in> set (tree_entries (build_file_tree_from_zip names))"
    unfolding build_entries(2) by blast
  from entry_at_top[OF build_entries(1) this[unfolded split]]
  obtain n where n: "map_of (build_file_tree_from_zip names) [] = Some n"
      "(w # ws, m) \<in> set (node_entries n)" by blast
  then show "\<exists>p ch. map_of (build_file_tree_from_zip names) [] = Some (Folder p ch)"
    by (cases n) auto
next
  assume "\<exists>p ch. map_of (build_file_tree_from_zip names) [] = Some (Folder p ch)"
  then obtain p ch where f: "map_of (build_file_tree_from_zip names) [] = Some (Folder p ch)"
    by blast
  show "\<exists>q \<in> set (file_names names). isabs q"
  proof (rule ccontr)
    assume no: "\<not> (\<exists>q \<in> set (file_names names). isabs q)"
    from f have "map_of (build_file_tree_from_zip names) [] \<noteq> None" by simp
    with no have e: "[] \<in> set (file_names names)"
      unfolding build_empty_key_iff by auto
    from no have "\<forall>r \<in> set (file_names names). \<not> prefix ([] @ ''/'') r"
      by (auto simp: isabs_prefix)
    with e have "(split_sep [], []) \<in> set (tree_entries (build_file_tree_from_zip names))"
      unfolding build_entries(2) by blast
    then have "([[]], []) \<in> set (tree_entries (build_file_tree_from_zip names))" by simp
    from entry_at_top[OF build_entries(1) this] f
    have "([], []) \<in> set (tree_entries ch)" by simp
    then show False by (auto dest: entries_Cons)
  qed
qed

lemma build_root_contribution:
  "contribution (build_file_tree_from_zip names) (file_names names) [] =
     (if \<exists>q \<in> set (file_names names). isabs q
      then {f \<in> set (file_names names). isabs f}
      else {f \<in> set (file_names names). f = []})"
proof (cases "map_of (build_file_tree_from_zip names) []")
  case None
  then show ?thesis
    using build_empty_key_iff[of names]
    by (auto simp: contribution_def get_root)
next
  case (Some n)
  show ?thesis
  proof (cases n)
    case (File p)
    with build_top[OF Some] have p: "p = []" by simp
    from Some File build_root_folder_iff[of names]
    have no: "\<not> (\<exists>q \<in> set (file_names names). isabs q)" by auto
    from Some have "map_of (build_file_tree_from_zip names) [] \<noteq> None" by simp
    with no have "[] \<in> set (file_names names)"
      unfolding build_empty_key_iff by auto
    with no Some File p show ?thesis
      by (auto simp: contribution_def get_root)
  next
    case (Folder p ch)
    with build_top[OF Some] have p: "p = ''/''" by simp
    from Some Folder build_root_folder_iff[of names]
    have "\<exists>q \<in> set (file_names names). isabs q" by auto
    with Some Folder p show ?thesis
      by (auto simp: contribution_def get_root isabs_prefix)
  qed
qed

lemma file_names_abs: "file_names names_abs = [''/b/c'', ''/a'', ''d'']"
  by code_simp

lemma abs_of_names_abs:
  "{f \<in> set [''/b/c'', ''/a'', ''d'']. isabs f} = {''/b/c'', ''/a''}"
  unfolding set_filter[symmetric] by (simp add: isabs_def)

lemma some_abs: "\<exists>q \<in> set [''/b/c'', ''/a'', ''d'']. isabs q"
  by (simp add: isabs_def)

lemma collect_nothing: "collect_final_selected_files [] names t = []"
  by (simp add: collect_final_selected_files_def)

lemma build_names_abs:
  "build_file_tree_from_zip names_abs =
     [([], Folder ''/'' [(''a'', File ''/a''), (''b'', Folder ''/b/'' [(''c'', File ''/b/c'')])]),
      (''d'', File ''d'')]"
  by code_simp

subsection \<open>The claims on the selection\<close>

text \<open>
  C10. The node looked up for a path is the node looked up for the path with a \<open>/\<close>
  appended and for the path with a \<open>/\<close> in front: the same node or the same absence,
  for every path and every tree. So a file node is found under its path followed by
  \<open>/\<close> too.
\<close>

theorem C10_lookup_ignores_surrounding_separators:
  "get_node_details_from_tree (p @ ''/'') t = get_node_details_from_tree p t
   \<and> get_node_details_from_tree (CHR ''/'' # p) t = get_node_details_from_tree p t"
  by (simp add: get_node_details_from_tree_def)

text \<open>
  C4. The result of \<open>collect_final_selected_files\<close> is in ascending order and has no
  duplicates. Its elements are what the selected paths add: nothing for a path with no
  node, the node's path for a file node, and for a folder node exactly the file names of
  the archive that start with the folder's path; the round of the loop for a folder adds
  exactly those names to the set built so far.
\<close>

theorem C4_resolve:
  "sorted (collect_final_selected_files sel names t)
   \<and> distinct (collect_final_selected_files sel names t)
   \<and> set (collect_final_selected_files sel names t) =
       (\<Union>key \<in> set sel.
          case get_node_details_from_tree key t of
            None \<Rightarrow> {}
          | Some (File p) \<Rightarrow> {p}
          | Some (Folder p ch) \<Rightarrow> {f \<in> set (file_names names). prefix p f})
   \<and> (get_node_details_from_tree key t = Some (Folder folder_prefix_path ch) \<longrightarrow>
        select_path t (file_names names) key acc =
          acc \<union> {f \<in> set (file_names names). prefix folder_prefix_path f})"
  using collect_set[of sel names t] select_path_contribution[of t "file_names names" key acc]
  by (auto simp: collect_sorted collect_distinct contribution_def)

theorem C4_resolve_witness:
  "get_node_details_from_tree ''src/'' tree0 =
     Some (Folder ''src/'' [(''a.py'', File ''src/a.py''),
                           (''b'', Folder ''src/b/'' [(''c.py'', File ''src/b/c.py'')])])
   \<and> select_path tree0 (file_names names0) ''src/'' {''x.bin''} =
       {''src/b/c.py'', ''src/a.py'', ''x.bin''}
   \<and> sorted (collect_final_selected_files [''x.bin'', ''src/'', ''src/a.py''] names0 tree0)
   \<and> distinct (collect_final_selected_files [''x.bin'', ''src/'', ''src/a.py''] names0 tree0)"
  using C4_resolve[of "[''x.bin'', ''src/'', ''src/a.py'']" names0 tree0 "''src/''" "''src/''"
      "[(''a.py'', File ''src/a.py''), (''b'', Folder ''src/b/'' [(''c.py'', File ''src/b/c.py'')])]"
      "{''x.bin''}"] get0
  unfolding fn0 pre0 by simp

text \<open>
  C9. A selected path for which \<open>get_node_details_from_tree\<close> finds no node adds
  nothing: the result with it in the selection is the result of the other selected paths.
  The lookup finds no node when a part is not a name of the dictionary reached, and when
  a part before the last names a file node. The model has no error value for the lookup
  and the collection, as the code raises none.
\<close>

theorem C9_unresolved_path_contributes_nothing:
  "(get_node_details_from_tree key t = None \<longrightarrow> set sel' = insert key (set sel) \<longrightarrow>
      collect_final_selected_files sel' names t = collect_final_selected_files sel names t)
   \<and> (map_of level part = None \<longrightarrow> walk_parts (part # rest) level node_info = None)
   \<and> (map_of level part = Some (File q) \<longrightarrow> rest \<noteq> [] \<longrightarrow>
        walk_parts (part # rest) level node_info = None)"
  using collect_unresolved[of key t sel' sel names] by simp

theorem C9_unresolved_path_contributes_nothing_witness:
  "get_node_details_from_tree ''x.bin/y'' tree0 = None
   \<and> set [''x.bin/y'', ''src/''] = insert ''x.bin/y'' (set [''src/''])
   \<and> collect_final_selected_files [''x.bin/y'', ''src/''] names0 tree0 =
       collect_final_selected_files [''src/''] names0 tree0
   \<and> map_of tree0 ''nope'' = None
   \<and> walk_parts [''nope'', ''f''] tree0 None = None
   \<and> map_of tree0 ''x.bin'' = Some (File ''x.bin'')
   \<and> walk_parts [''x.bin'', ''y''] tree0 None = None"
  using C9_unresolved_path_contributes_nothing[where key = "''x.bin/y''" and t = tree0
      and sel' = "[''x.bin/y'', ''src/'']" and sel = "[''src/'']" and names = names0
      and level = tree0 and part = "''nope''" and rest = "[''f'']" and node_info = None]
    C9_unresolved_path_contributes_nothing[where key = "''x.bin/y''" and t = tree0
      and sel' = "[''x.bin/y'', ''src/'']" and sel = "[''src/'']" and names = names0
      and level = tree0 and part = "''x.bin''" and rest = "[''y'']" and node_info = None
      and q = "''x.bin''"]
    get_x_bin_y
  by (simp add: tree0_def)

text \<open>
  C2, as the code has it. The result is in ascending order and has no duplicates. The
  tree has no node for the root: the selected path \<open>""\<close> is looked up as the top-level
  name \<open>""\<close>, and adding \<open>""\<close> to a selection adds to the result exactly what that
  entry gives: nothing when the tree has no such name (the result is then the result of
  the other selected paths), its path when it is a file node, the file names that start
  with its path when it is a folder node. On the tree built from the archive, adding
  \<open>""\<close> adds exactly the file names that start with \<open>/\<close> when there are any, and
  otherwise exactly the empty file name when the archive has it; so it adds nothing
  when every file name is non-empty and does not start with \<open>/\<close>.
\<close>

theorem C2_root_selection:
  "sorted (collect_final_selected_files sel names t)
   \<and> distinct (collect_final_selected_files sel names t)
   \<and> set (collect_final_selected_files ([] # sel) names t) =
       set (collect_final_selected_files sel names t) \<union>
       (case map_of t [] of
          None \<Rightarrow> {}
        | Some (File p) \<Rightarrow> {p}
        | Some (Folder p ch) \<Rightarrow> {f \<in> set (file_names names). prefix p f})
   \<and> (map_of t [] = None \<longrightarrow>
        collect_final_selected_files ([] # sel) names t = collect_final_selected_files sel names t)
   \<and> set (collect_final_selected_files ([] # sel) names (build_file_tree_from_zip names)) =
       set (collect_final_selected_files sel names (build_file_tree_from_zip names)) \<union>
       (if \<exists>q \<in> set (file_names names). isabs q
        then {f \<in> set (file_names names). isabs f}
        else {f \<in> set (file_names names). f = []})
   \<and> ((\<forall>n \<in> set (file_names names). n \<noteq> [] \<and> \<not> isabs n) \<longrightarrow>
        collect_final_selected_files ([] # sel) names (build_file_tree_from_zip names) =
        collect_final_selected_files sel names (build_file_tree_from_zip names))"
proof -
  have a: "set (collect_final_selected_files ([] # sel) names t) =
       set (collect_final_selected_files sel names t) \<union>
       (case map_of t [] of
          None \<Rightarrow> {}
        | Some (File p) \<Rightarrow> {p}
        | Some (Folder p ch) \<Rightarrow> {f \<in> set (file_names names). prefix p f})" for t
    unfolding collect_set by (auto simp: contribution_def get_root)
  have b: "set (collect_final_selected_files ([] # sel) names (build_file_tree_from_zip names)) =
       set (collect_final_selected_files sel names (build_file_tree_from_zip names)) \<union>
       (if \<exists>q \<in> set (file_names names). isabs q
        then {f \<in> set (file_names names). isabs f}
        else {f \<in> set (file_names names). f = []})"
    unfolding collect_set using build_root_contribution[of names] by auto
  have c: "collect_final_selected_files ([] # sel) names t =
      collect_final_selected_files sel names t" if "map_of t [] = None" for t
    using collect_unresolved[OF get_root_None[OF that], of "[] # sel" sel names] by simp
  show ?thesis
    using a[of t] b c[of t] c[of "build_file_tree_from_zip names"] build_no_empty_key[of names]
    by (simp add: collect_sorted collect_distinct)
qed

theorem C2_root_selection_witness:
  "list_all (\<lambda>n. n \<noteq> [] \<and> \<not> isabs n) (file_names names0)
   \<and> map_of (build_file_tree_from_zip names0) [] = None
   \<and> collect_final_selected_files [[], ''x.bin''] names0 (build_file_tree_from_zip names0) =
       collect_final_selected_files [''x.bin''] names0 (build_file_tree_from_zip names0)
   \<and> map_of (build_file_tree_from_zip names_abs) [] =
       Some (Folder ''/'' [(''a'', File ''/a''), (''b'', Folder ''/b/'' [(''c'', File ''/b/c'')])])
   \<and> set (collect_final_selected_files [[]] names_abs (build_file_tree_from_zip names_abs)) =
       {''/b/c'', ''/a''}"
proof -
  note rel = C2_root_selection[of "[''x.bin'']" names0 "build_file_tree_from_zip names0"]
  note abs = C2_root_selection[of "[]" names_abs "build_file_tree_from_zip names_abs"]
  from rel names0_relative
  have 1: "collect_final_selected_files [[], ''x.bin''] names0 (build_file_tree_from_zip names0) =
       collect_final_selected_files [''x.bin''] names0 (build_file_tree_from_zip names0)"
    by blast
  from abs[THEN conjunct2, THEN conjunct2, THEN conjunct2, THEN conjunct2, THEN conjunct1]
  have 2: "set (collect_final_selected_files [[]] names_abs (build_file_tree_from_zip names_abs)) =
       {''/b/c'', ''/a''}"
    unfolding file_names_abs collect_nothing abs_of_names_abs using some_abs by simp
  show ?thesis
    using 1 2 names0_relative build_no_empty_key[OF names0_relative]
    by (simp add: list_all_iff build_names_abs)
qed

text \<open>
  C2 as stated fails: with only \<open>""\<close> selected on the tree built from the small archive,
  the file \<open>x.bin\<close> of the archive is not in the result.
\<close>

theorem C2_counterexample:
  "''x.bin'' \<in> set (file_names names0)
   \<and> ''x.bin'' \<notin> set (collect_final_selected_files [[]] names0 (build_file_tree_from_zip names0))"
  by code_simp

text \<open>
  C7. The output of the conversion is a function of the tree, the set of selected paths,
  the names of the archive and the byte source: two enumerations of the same set of
  selected paths, in any order and with any repetition, give the same result, and so the
  same serialised text.
\<close>

theorem C7_convert_deterministic:
  "set sel1 = set sel2 \<Longrightarrow>
   convert enc t sel1 names read = convert enc t sel2 names read"
  by (simp add: convert_def collect_set_cong[of sel1 sel2])

theorem C7_convert_deterministic_witness:
  "set [''src/'', ''x.bin''] = set [''x.bin'', ''src/'', ''x.bin'']
   \<and> convert id tree0 [''src/'', ''x.bin''] names0 read0 =
       convert id tree0 [''x.bin'', ''src/'', ''x.bin''] names0 read0"
  using C7_convert_deterministic[of "[''src/'', ''x.bin'']" "[''x.bin'', ''src/'', ''x.bin'']"
      id tree0 names0 read0]
  by auto

section \<open>Assembling the document\<close>

subsection \<open>The two loops over the segments\<close>

lemma insert_segments_put:
  "segs \<noteq> [] \<Longrightarrow> insert_segments segs c d = put (butlast segs) (Some (last segs, c)) d"
  by (induction segs arbitrary: d) (auto split: option.splits jval.splits)

lemma insert_segments_zip2json_put:
  "segs \<noteq> [] \<Longrightarrow>
   insert_segments_zip2json segs c d =
     put (non_empty_segments (butlast segs)) (if last segs = [] then None else Some (last segs, c)) d"
  by (induction segs arbitrary: d) (auto simp: non_empty_segments_def split: option.splits jval.splits)

lemma doc_at_Nil [simp]: "doc_at d [] = Some (JDict d)"
  by (simp add: doc_at_def)

lemma doc_at_Cons:
  "doc_at d (k # ks) = (case map_of d k of None \<Rightarrow> None | Some v \<Rightarrow> val_at v ks)"
  by (simp add: doc_at_def)

lemma val_at_JDict [simp]: "val_at (JDict d) ks = doc_at d ks"
  by (simp add: doc_at_def)

lemma doc_at_update:
  "doc_at (AList.update k v d) (k' # ks) = (if k' = k then val_at v ks else doc_at d (k' # ks))"
  by (simp add: doc_at_Cons update_conv')

lemma doc_at_empty: "ks \<noteq> [] \<Longrightarrow> doc_at [] ks = None"
  by (cases ks) (simp_all add: doc_at_Cons)

lemma put_on_the_way:
  "prefix ks dirs \<Longrightarrow>
   doc_at (put dirs leaf d) ks =
     Some (JDict (put (drop (length ks) dirs) leaf
                    (case doc_at d ks of Some (JDict sub) \<Rightarrow> sub | _ \<Rightarrow> [])))"
proof (induction dirs arbitrary: ks d)
  case Nil
  then show ?case by simp
next
  case (Cons s ss)
  show ?case
  proof (cases ks)
    case Nil
    then show ?thesis by simp
  next
    case (Cons k ks')
    with Cons.prems have k: "k = s" and p: "prefix ks' ss" by simp_all
    show ?thesis
    proof (cases "\<exists>sub. map_of d s = Some (JDict sub)")
      case True
      then obtain sub where sub: "map_of d s = Some (JDict sub)" by blast
      with Cons.IH[OF p, of sub] show ?thesis
        using Cons k by (simp add: doc_at_update) (simp add: doc_at_Cons)
    next
      case False
      then have put: "put (s # ss) leaf d = AList.update s (JDict (put ss leaf [])) d"
        by (auto split: option.splits jval.splits)
      have "(case doc_at d (s # ks') of Some (JDict sub) \<Rightarrow> sub | _ \<Rightarrow> []) =
            (case doc_at [] ks' of Some (JDict sub) \<Rightarrow> sub | _ \<Rightarrow> [])"
      proof (cases "map_of d s")
        case None
        then show ?thesis
          by (cases ks') (simp_all add: doc_at_Cons)
      next
        case (Some v)
        with False obtain c where "v = JStr c" by (cases v) auto
        with Some show ?thesis
          by (cases ks') (simp_all add: doc_at_Cons)
      qed
      with Cons.IH[OF p, of "[]"] show ?thesis
        using Cons k put by (simp add: doc_at_update)
    qed
  qed
qed

lemma put_leaf_stored:
  "doc_at (put dirs (Some (k, c)) d) (dirs @ [k]) = Some (JStr c)"
  by (induction dirs arbitrary: d)
    (auto simp: doc_at_update split: option.splits jval.splits)

lemma is_text_simps [simp]:
  "is_text None = False" "is_text (Some (JDict d)) = False" "is_text (Some (JStr s)) = True"
  by (simp_all add: is_text_def)

lemma val_at_JStr: "val_at (JStr c) ks = (if ks = [] then Some (JStr c) else None)"
  by (cases ks) simp_all

lemma put_keeps_not_text:
  "\<not> is_text (doc_at d ks) \<Longrightarrow> (\<And>k c. leaf = Some (k, c) \<Longrightarrow> dirs @ [k] \<noteq> ks) \<Longrightarrow>
   \<not> is_text (doc_at (put dirs leaf d) ks)"
proof (induction dirs arbitrary: ks d)
  case Nil
  show ?case
  proof (cases leaf)
    case None
    with Nil show ?thesis by simp
  next
    case (Some kc)
    obtain k c where kc: "kc = (k, c)" by (cases kc)
    with Some Nil.prems(2)[of k c] have ne: "[k] \<noteq> ks" by simp
    show ?thesis
    proof (cases ks)
      case Nil
      then show ?thesis by simp
    next
      case (Cons k' ks')
      with ne Nil.prems(1) Some kc show ?thesis
        by (auto simp: doc_at_update val_at_JStr)
    qed
  qed
next
  case (Cons s ss)
  show ?case
  proof (cases ks)
    case Nil
    then show ?thesis by simp
  next
    case ks: (Cons k' ks')
    show ?thesis
    proof (cases "k' = s")
      case False
      with ks Cons.prems(1) show ?thesis
        by (auto simp: doc_at_update split: option.splits jval.splits)
    next
      case True
      have leaf': "\<And>k c. leaf = Some (k, c) \<Longrightarrow> ss @ [k] \<noteq> ks'"
        using Cons.prems(2) ks True by auto
      show ?thesis
      proof (cases "\<exists>sub. map_of d s = Some (JDict sub)")
        case sub: True
        then obtain sub where sub: "map_of d s = Some (JDict sub)" by blast
        with Cons.prems(1) ks True have "\<not> is_text (doc_at sub ks')"
          by (simp add: doc_at_Cons)
        from Cons.IH[OF this leaf'] sub ks True show ?thesis
          by (simp add: doc_at_update)
      next
        case nosub: False
        then have put: "put (s # ss) leaf d = AList.update s (JDict (put ss leaf [])) d"
          by (auto split: option.splits jval.splits)
        have "\<not> is_text (doc_at [] ks')"
          by (cases ks') (simp_all add: doc_at_Cons)
        from Cons.IH[OF this leaf'] ks True put show ?thesis
          by (simp add: doc_at_update)
      qed
    qed
  qed
qed

lemma put_elsewhere:
  "\<not> prefix ks dirs \<Longrightarrow>
   (case leaf of None \<Rightarrow> True
    | Some kc \<Rightarrow> \<not> prefix (dirs @ [fst kc]) ks \<and> dirs @ [fst kc] \<noteq> ks) \<Longrightarrow>
   doc_at (put dirs leaf d) ks = doc_at d ks"
proof (induction dirs arbitrary: ks d)
  case Nil
  then obtain k' ks' where ks: "ks = k' # ks'" by (cases ks) auto
  show ?case
  proof (cases leaf)
    case None
    then show ?thesis by simp
  next
    case (Some kc)
    obtain k c where kc: "kc = (k, c)" by (cases kc)
    with Some Nil.prems(2) ks have "k' \<noteq> k" by auto
    with Some kc ks show ?thesis by (simp add: doc_at_update)
  qed
next
  case (Cons s ss)
  then obtain k' ks' where ks: "ks = k' # ks'" by (cases ks) auto
  show ?case
  proof (cases "k' = s")
    case False
    with ks show ?thesis
      by (auto simp: doc_at_update split: option.splits jval.splits)
  next
    case True
    with Cons.prems(1) ks have np: "\<not> prefix ks' ss" by simp
    have leaf': "case leaf of None \<Rightarrow> True
      | Some kc \<Rightarrow> \<not> prefix (ss @ [fst kc]) ks' \<and> ss @ [fst kc] \<noteq> ks'"
      using Cons.prems(2) ks True by (auto split: option.splits)
    from np have ne: "ks' \<noteq> []" by auto
    show ?thesis
    proof (cases "\<exists>sub. map_of d s = Some (JDict sub)")
      case sub: True
      then obtain sub where sub: "map_of d s = Some (JDict sub)" by blast
      have rhs: "doc_at d (s # ks') = doc_at sub ks'"
        using sub by (simp add: doc_at_Cons)
      from Cons.IH[OF np leaf', of sub] sub ks True show ?thesis
        by (simp add: doc_at_update rhs)
    next
      case nosub: False
      then have put: "put (s # ss) leaf d = AList.update s (JDict (put ss leaf [])) d"
        by (auto split: option.splits jval.splits)
      have "doc_at d (s # ks') = None"
      proof (cases "map_of d s")
        case None
        then show ?thesis by (simp add: doc_at_Cons)
      next
        case (Some v)
        with nosub obtain c where "v = JStr c" by (cases v) auto
        with Some ne show ?thesis by (simp add: doc_at_Cons val_at_JStr)
      qed
      with Cons.IH[OF np leaf', of "[]"] ks True put ne show ?thesis
        by (simp add: doc_at_update doc_at_empty)
    qed
  qed
qed

lemma path_segments_nonempty [simp]: "path_segments cp p \<noteq> []"
  by (simp add: path_segments_def)

lemma assemble_file_put:
  "assemble_file cp read p d =
     put (butlast (path_segments cp p)) (Some (last (path_segments cp p), file_content_str read p)) d"
  by (simp add: assemble_file_def insert_segments_put path_segments_def)

lemma assemble_file_zip2json_put:
  "assemble_file_zip2json cp read p d =
     put (non_empty_segments (butlast (path_segments cp p)))
       (if last (path_segments cp p) = [] then None
        else Some (last (path_segments cp p), file_content_str read p)) d"
  by (simp add: assemble_file_zip2json_def insert_segments_zip2json_put path_segments_def)

lemma assemble_append:
  "assemble cp read (xs @ ys) d = assemble cp read ys (assemble cp read xs d)"
  by (simp add: assemble_def)

lemma assemble_zip2json_append:
  "assemble_zip2json cp read (xs @ ys) d = assemble_zip2json cp read ys (assemble_zip2json cp read xs d)"
  by (simp add: assemble_zip2json_def)

lemma assemble_Cons: "assemble cp read (x # xs) d = assemble cp read xs (assemble_file cp read x d)"
  by (simp add: assemble_def)

lemma assemble_zip2json_Cons:
  "assemble_zip2json cp read (x # xs) d = assemble_zip2json cp read xs (assemble_file_zip2json cp read x d)"
  by (simp add: assemble_zip2json_def)

lemma assemble_Nil [simp]: "assemble cp read [] d = d" "assemble_zip2json cp read [] d = d"
  by (simp_all add: assemble_def assemble_zip2json_def)

lemma non_empty_segments_idem [simp]:
  "non_empty_segments (non_empty_segments xs) = non_empty_segments xs"
  by (simp add: non_empty_segments_def)

lemma non_empty_segments_drop:
  "non_empty_segments (drop n (non_empty_segments xs)) = drop n (non_empty_segments xs)"
  unfolding non_empty_segments_def
  by (rule filter_True) (auto dest: in_set_dropD)

lemma assemble_file_collision:
  assumes "doc_at d ks = Some (JStr v)" "strict_prefix ks (path_segments cp q)"
  shows "doc_at (assemble_file cp read q d) ks =
     Some (JDict (insert_segments (drop (length ks) (path_segments cp q)) (file_content_str read q) []))"
proof -
  let ?segs = "path_segments cp q"
  from assms(2) have pre: "prefix ks ?segs" and neq: "ks \<noteq> ?segs"
    by (simp_all add: strict_prefix_def)
  from assms(2) have len: "length ks < length ?segs"
    by (rule prefix_length_less)
  from pre have "prefix ks (butlast ?segs @ [last ?segs])" by simp
  with neq have p: "prefix ks (butlast ?segs)"
    unfolding prefix_snoc by simp
  have ne: "drop (length ks) ?segs \<noteq> []" using len by simp
  have "insert_segments (drop (length ks) ?segs) (file_content_str read q) [] =
        put (drop (length ks) (butlast ?segs)) (Some (last ?segs, file_content_str read q)) []"
    using len by (simp add: insert_segments_put[OF ne] butlast_drop)
  with put_on_the_way[OF p, of "Some (last ?segs, file_content_str read q)" d] assms(1)
  show ?thesis by (simp add: assemble_file_put)
qed

lemma assemble_file_zip2json_collision:
  assumes "doc_at d ks = Some (JStr v)"
    and "prefix ks (non_empty_segments (butlast (path_segments cp q)))"
  shows "doc_at (assemble_file_zip2json cp read q d) ks =
     Some (JDict (insert_segments_zip2json
        (drop (length ks) (non_empty_segments (butlast (path_segments cp q)))
           @ [last (path_segments cp q)])
        (file_content_str read q) []))"
proof -
  let ?dirs = "non_empty_segments (butlast (path_segments cp q))"
  let ?leaf = "if last (path_segments cp q) = [] then None
        else Some (last (path_segments cp q), file_content_str read q)"
  have "insert_segments_zip2json (drop (length ks) ?dirs @ [last (path_segments cp q)])
          (file_content_str read q) [] = put (drop (length ks) ?dirs) ?leaf []"
    by (simp add: insert_segments_zip2json_put non_empty_segments_drop)
  with put_on_the_way[OF assms(2), of ?leaf d] assms(1)
  show ?thesis by (simp add: assemble_file_zip2json_put)
qed

lemma assemble_keeps_not_text:
  "\<not> is_text (doc_at d ks) \<Longrightarrow> \<forall>r \<in> set ys. path_segments cp r \<noteq> ks \<Longrightarrow>
   \<not> is_text (doc_at (assemble cp read ys d) ks)"
proof (induction ys arbitrary: d)
  case Nil
  then show ?case by simp
next
  case (Cons y ys)
  from Cons.prems(2) have "path_segments cp y \<noteq> ks" by simp
  moreover have "butlast (path_segments cp y) @ [last (path_segments cp y)] = path_segments cp y"
    by simp
  ultimately have "\<not> is_text (doc_at (assemble_file cp read y d) ks)"
    unfolding assemble_file_put
    by (intro put_keeps_not_text[OF Cons.prems(1)]) auto
  from Cons.IH[OF this] Cons.prems(2) show ?case
    by (simp add: assemble_Cons)
qed

lemma non_empty_segments_snoc:
  "segs \<noteq> [] \<Longrightarrow> last segs \<noteq> [] \<Longrightarrow>
   non_empty_segments (butlast segs) @ [last segs] = non_empty_segments segs"
  by (induction segs) (auto simp: non_empty_segments_def)

lemma assemble_zip2json_keeps_not_text:
  "\<not> is_text (doc_at d ks) \<Longrightarrow>
   \<forall>r \<in> set ys. last (path_segments cp r) \<noteq> [] \<longrightarrow> non_empty_segments (path_segments cp r) \<noteq> ks \<Longrightarrow>
   \<not> is_text (doc_at (assemble_zip2json cp read ys d) ks)"
proof (induction ys arbitrary: d)
  case Nil
  then show ?case by simp
next
  case (Cons y ys)
  from Cons.prems(2)
  have y: "last (path_segments cp y) \<noteq> [] \<longrightarrow> non_empty_segments (path_segments cp y) \<noteq> ks"
    by simp
  have "\<not> is_text (doc_at (assemble_file_zip2json cp read y d) ks)"
    unfolding assemble_file_zip2json_put
    using y by (intro put_keeps_not_text[OF Cons.prems(1)])
      (auto simp: non_empty_segments_snoc split: if_splits)
  from Cons.IH[OF this] Cons.prems(2) show ?case
    by (simp add: assemble_zip2json_Cons)
qed

lemma assemble_file_leaf:
  "doc_at (assemble_file cp read p d) (path_segments cp p) = Some (JStr (file_content_str read p))"
  using put_leaf_stored[of "butlast (path_segments cp p)" "last (path_segments cp p)"
      "file_content_str read p" d]
  by (simp add: assemble_file_put)

lemma assemble_file_zip2json_leaf:
  "last (path_segments cp p) \<noteq> [] \<Longrightarrow>
   doc_at (assemble_file_zip2json cp read p d) (non_empty_segments (path_segments cp p)) =
     Some (JStr (file_content_str read p))"
  using put_leaf_stored[of "non_empty_segments (butlast (path_segments cp p))"
      "last (path_segments cp p)" "file_content_str read p" d]
  by (simp add: assemble_file_zip2json_put non_empty_segments_snoc)

lemma assemble_elsewhere:
  "\<forall>r \<in> set ys. \<not> prefix (path_segments cp r) ks \<and> \<not> prefix ks (path_segments cp r) \<Longrightarrow>
   doc_at (assemble cp read ys d) ks = doc_at d ks"
proof (induction ys arbitrary: d)
  case Nil
  then show ?case by simp
next
  case (Cons y ys)
  let ?segs = "path_segments cp y"
  from Cons.prems have a: "\<not> prefix ?segs ks" and b: "\<not> prefix ks ?segs" by simp_all
  have segs: "butlast ?segs @ [last ?segs] = ?segs" by simp
  from b have nb: "\<not> prefix ks (butlast ?segs)"
    by (metis segs prefix_prefix)
  from a have "?segs \<noteq> ks" by auto
  with a nb have "doc_at (assemble_file cp read y d) ks = doc_at d ks"
    unfolding assemble_file_put by (intro put_elsewhere) (simp_all add: segs)
  with Cons.IH[of "assemble_file cp read y d"] Cons.prems show ?case
    by (simp add: assemble_Cons)
qed

lemma assemble_zip2json_elsewhere:
  "\<forall>r \<in> set ys. \<not> prefix (non_empty_segments (path_segments cp r)) ks
      \<and> \<not> prefix ks (non_empty_segments (path_segments cp r)) \<Longrightarrow>
   doc_at (assemble_zip2json cp read ys d) ks = doc_at d ks"
proof (induction ys arbitrary: d)
  case Nil
  then show ?case by simp
next
  case (Cons y ys)
  let ?segs = "path_segments cp y"
  let ?dirs = "non_empty_segments (butlast ?segs)"
  from Cons.prems have a: "\<not> prefix (non_empty_segments ?segs) ks"
    and b: "\<not> prefix ks (non_empty_segments ?segs)" by simp_all
  have segs: "butlast ?segs @ [last ?segs] = ?segs" by simp
  have ne: "non_empty_segments ?segs =
      (if last ?segs = [] then ?dirs else ?dirs @ [last ?segs])"
    by (subst (1) segs[symmetric]) (simp add: non_empty_segments_def del: append_butlast_last_id)
  from b have nb: "\<not> prefix ks ?dirs"
    unfolding ne by (auto split: if_splits dest: prefix_prefix)
  from a have "non_empty_segments ?segs \<noteq> ks" by auto
  with a nb have "doc_at (assemble_file_zip2json cp read y d) ks = doc_at d ks"
    unfolding assemble_file_zip2json_put ne by (intro put_elsewhere) (auto split: if_splits)
  with Cons.IH[of "assemble_file_zip2json cp read y d"] Cons.prems show ?case
    by (simp add: assemble_zip2json_Cons)
qed

subsection \<open>The common path never stops the loop on its own paths\<close>

lemma common_components_le:
  "s1 \<le> s2 \<Longrightarrow> \<exists>common. common_components s1 s2 = Inr common"
proof (induction s1 s2 rule: common_components.induct)
  case (1 s2)
  then show ?case by simp
next
  case (2 c s1)
  then show ?case by simp
next
  case (3 c s1 d s2)
  then show ?case by (cases "c = d") auto
qed

lemma commonpath_ok:
  assumes "paths \<noteq> []" "\<forall>q \<in> set paths. isabs q = isabs (hd paths)"
  shows "\<exists>cp. commonpath paths = Inr cp"
proof -
  let ?S = "set (map (\<lambda>p. filter (\<lambda>c. c \<noteq> [] \<and> c \<noteq> ''.'') (split_sep p)) paths)"
  have fin: "finite ?S" and ne: "?S \<noteq> {}" using assms(1) by simp_all
  then have "Min ?S \<le> Max ?S"
    by (meson Max_ge Min_le ex_in_conv order_trans)
  from common_components_le[OF this] obtain common
    where "common_components (Min ?S) (Max ?S) = Inr common" ..
  moreover have "\<not> list_ex (\<lambda>p. isabs p \<noteq> isabs (hd paths)) paths"
    using assms(2) by (simp add: list_ex_iff)
  ultimately show ?thesis
    using assms(1) by (simp add: commonpath_def Let_def)
qed

lemma common_prefix_of_ok:
  "commonpath sel = Inr c0 \<Longrightarrow> \<exists>c. common_prefix_of sel = Inr c"
  "commonpath sel = Inr c0 \<Longrightarrow> \<exists>c. common_prefix_of_zip2json sel = Inr c"
  by (simp_all add: common_prefix_of_def common_prefix_of_zip2json_def Let_def)

lemma file_content_str_upd:
  "file_content_str (read(p := Inr (file_content_str read p))) = file_content_str read"
  by (rule ext) (auto simp: file_content_str_def)

lemma assemble_file_upd:
  "assemble_file cp (read(p := Inr (file_content_str read p))) = assemble_file cp read"
  "assemble_file_zip2json cp (read(p := Inr (file_content_str read p))) =
   assemble_file_zip2json cp read"
  by (intro ext, simp add: assemble_file_def assemble_file_zip2json_def file_content_str_upd)+

lemma assemble_upd:
  "assemble cp (read(p := Inr (file_content_str read p))) = assemble cp read"
  "assemble_zip2json cp (read(p := Inr (file_content_str read p))) = assemble_zip2json cp read"
  by (intro ext, simp add: assemble_def assemble_zip2json_def assemble_file_upd)+

lemma build_upd:
  "build_nested_json_from_paths sel (read(p := Inr (file_content_str read p))) =
   build_nested_json_from_paths sel read"
  "build_nested_json_from_paths_zip2json sel (read(p := Inr (file_content_str read p))) =
   build_nested_json_from_paths_zip2json sel read"
  by (simp_all add: build_nested_json_from_paths_def build_nested_json_from_paths_zip2json_def
      assemble_upd split: sum.splits)

lemma diagnostic_mentions:
  "read p = Inl e \<Longrightarrow> sublist p (file_content_str read p) \<and> sublist e (file_content_str read p)"
proof -
  assume r: "read p = Inl e"
  have a: "file_content_str read p =
      (''Error reading/decoding file '' @ [CHR 0x27]) @ p @ ([CHR 0x27] @ '': '' @ e @ ''.'')"
    using r by (simp add: file_content_str_def)
  have b: "file_content_str read p =
      (''Error reading/decoding file '' @ [CHR 0x27] @ p @ [CHR 0x27] @ '': '') @ e @ ''.''"
    using r by (simp add: file_content_str_def)
  show ?thesis
    by (rule conjI) (subst a, rule sublist_appendI, subst b, rule sublist_appendI)
qed

lemma build_Inr:
  "common_prefix_of sel = Inr cp \<Longrightarrow>
   build_nested_json_from_paths sel read = Inr (assemble cp read sel [])"
  "common_prefix_of_zip2json sel = Inr cp \<Longrightarrow>
   build_nested_json_from_paths_zip2json sel read = Inr (assemble_zip2json cp read sel [])"
  by (simp_all add: build_nested_json_from_paths_def build_nested_json_from_paths_zip2json_def)

subsection \<open>The two selections\<close>

lemma clash_files_split: "clash_files = [''x/a''] @ ''x/a/b'' # [''y'']"
  by (simp add: clash_files_def)

lemma cp_clash_files: "common_prefix_of clash_files = Inr []" "common_prefix_of_zip2json clash_files = Inr []"
  by code_simp+

lemma segs_clash_files:
  "path_segments [] ''x/a'' = [''x'', ''a'']"
  "path_segments [] ''x/a/b'' = [''x'', ''a'', ''b'']"
  "path_segments [] ''y'' = [''y'']"
  by code_simp+

lemma leaf_clash_files:
  "doc_at (assemble [] read0 [''x/a''] []) [''x'', ''a''] = Some (JStr ''text of x/a'')"
  "doc_at (assemble_zip2json [] read0 [''x/a''] []) [''x'', ''a''] = Some (JStr ''text of x/a'')"
  by code_simp+

lemma build_clash_files:
  "build_nested_json_from_paths clash_files read0 =
     Inr [(''x'', JDict [(''a'', JDict [(''b'', JStr ''text of x/a/b'')])]),
          (''y'', JStr ''text of y'')]"
  "build_nested_json_from_paths_zip2json clash_files read0 =
     Inr [(''x'', JDict [(''a'', JDict [(''b'', JStr ''text of x/a/b'')])]),
          (''y'', JStr ''text of y'')]"
  by code_simp+

lemma bin_files_split: "bin_files = [''src/a.py''] @ ''x.bin'' # [''y/z.txt'']"
  by (simp add: bin_files_def)

lemma cp_bin_files: "common_prefix_of bin_files = Inr []" "common_prefix_of_zip2json bin_files = Inr []"
  by code_simp+

lemma segs_bin_files:
  "path_segments [] ''x.bin'' = [''x.bin'']"
  "path_segments [] ''y/z.txt'' = [''y'', ''z.txt'']"
  by code_simp+

lemma read0_x_bin: "read0 ''x.bin'' = Inl ''bad entry''"
  by (simp add: read0_def)

lemma build_bin_files:
  "build_nested_json_from_paths bin_files read0 =
     Inr [(''src'', JDict [(''a.py'', JStr ''text of src/a.py'')]),
          (''x.bin'', JStr (file_content_str read0 ''x.bin'')),
          (''y'', JDict [(''z.txt'', JStr ''text of y/z.txt'')])]"
  "build_nested_json_from_paths_zip2json bin_files read0 =
     Inr [(''src'', JDict [(''a.py'', JStr ''text of src/a.py'')]),
          (''x.bin'', JStr (file_content_str read0 ''x.bin'')),
          (''y'', JDict [(''z.txt'', JStr ''text of y/z.txt'')])]"
  by code_simp+

subsection \<open>The claims on the document\<close>

text \<open>
  C5. Let the read or the decode of the selected file \<open>p\<close> raise with the message
  \<open>e\<close>. The text stored for \<open>p\<close> contains \<open>p\<close> and \<open>e\<close>. The document is the
  one of a byte source that returns that text for \<open>p\<close> and is the same elsewhere, so
  every other file is assembled as it would be. Once the common prefix is there the
  function returns the assembled document, whatever the reads do; and the common prefix
  is there when the paths are all absolute or all relative. In the document the
  segments of \<open>p\<close> lead to that text, when no later file is stored at, above or below
  these segments. All of it holds for \<open>zip_to_json_app.py\<close> and for \<open>zip2json.py\<close>
  (which leaves the empty segments out and stores nothing under an empty last segment).
\<close>

theorem C5_unreadable_file_is_absorbed:
  assumes "read p = Inl e"
  shows "sublist p (file_content_str read p) \<and> sublist e (file_content_str read p)
   \<and> build_nested_json_from_paths sel (read(p := Inr (file_content_str read p))) =
       build_nested_json_from_paths sel read
   \<and> build_nested_json_from_paths_zip2json sel (read(p := Inr (file_content_str read p))) =
       build_nested_json_from_paths_zip2json sel read
   \<and> (common_prefix_of sel = Inr cp \<longrightarrow>
        build_nested_json_from_paths sel read = Inr (assemble cp read sel []))
   \<and> (common_prefix_of_zip2json sel = Inr cp \<longrightarrow>
        build_nested_json_from_paths_zip2json sel read = Inr (assemble_zip2json cp read sel []))
   \<and> (sel \<noteq> [] \<longrightarrow> (\<forall>q \<in> set sel. isabs q = isabs (hd sel)) \<longrightarrow>
        (\<exists>c. common_prefix_of sel = Inr c) \<and> (\<exists>c. common_prefix_of_zip2json sel = Inr c))
   \<and> (sel = xs @ p # ys \<longrightarrow>
        (\<forall>r \<in> set ys. \<not> prefix (path_segments cp r) (path_segments cp p)
                     \<and> \<not> prefix (path_segments cp p) (path_segments cp r)) \<longrightarrow>
        doc_at (assemble cp read sel []) (path_segments cp p) =
          Some (JStr (file_content_str read p)))
   \<and> (sel = xs @ p # ys \<longrightarrow> last (path_segments cp p) \<noteq> [] \<longrightarrow>
        (\<forall>r \<in> set ys.
            \<not> prefix (non_empty_segments (path_segments cp r)) (non_empty_segments (path_segments cp p))
          \<and> \<not> prefix (non_empty_segments (path_segments cp p)) (non_empty_segments (path_segments cp r))) \<longrightarrow>
        doc_at (assemble_zip2json cp read sel []) (non_empty_segments (path_segments cp p)) =
          Some (JStr (file_content_str read p)))"
proof -
  have ok: "sel \<noteq> [] \<longrightarrow> (\<forall>q \<in> set sel. isabs q = isabs (hd sel)) \<longrightarrow>
        (\<exists>c. common_prefix_of sel = Inr c) \<and> (\<exists>c. common_prefix_of_zip2json sel = Inr c)"
    using commonpath_ok[of sel] common_prefix_of_ok[of sel] by blast
  have leaf: "doc_at (assemble cp read (xs @ p # ys) []) (path_segments cp p) =
          Some (JStr (file_content_str read p))"
    if "\<forall>r \<in> set ys. \<not> prefix (path_segments cp r) (path_segments cp p)
                     \<and> \<not> prefix (path_segments cp p) (path_segments cp r)"
    using assemble_elsewhere[OF that] by (simp add: assemble_append assemble_Cons assemble_file_leaf)
  have leaf2: "doc_at (assemble_zip2json cp read (xs @ p # ys) [])
          (non_empty_segments (path_segments cp p)) = Some (JStr (file_content_str read p))"
    if "last (path_segments cp p) \<noteq> []"
      "\<forall>r \<in> set ys.
            \<not> prefix (non_empty_segments (path_segments cp r)) (non_empty_segments (path_segments cp p))
          \<and> \<not> prefix (non_empty_segments (path_segments cp p)) (non_empty_segments (path_segments cp r))"
    using assemble_zip2json_elsewhere[OF that(2)] that(1)
    by (simp add: assemble_zip2json_append assemble_zip2json_Cons assemble_file_zip2json_leaf)
  show ?thesis
    using assms diagnostic_mentions[of read p e] build_upd[of sel read p]
      build_Inr[of sel cp read] ok leaf leaf2
    by blast
qed

theorem C5_unreadable_file_is_absorbed_witness:
  "read0 ''x.bin'' = Inl ''bad entry''
   \<and> sublist ''x.bin'' (file_content_str read0 ''x.bin'')
   \<and> sublist ''bad entry'' (file_content_str read0 ''x.bin'')
   \<and> build_nested_json_from_paths bin_files read0 = Inr (assemble [] read0 bin_files [])
   \<and> build_nested_json_from_paths_zip2json bin_files read0 = Inr (assemble_zip2json [] read0 bin_files [])
   \<and> doc_at (assemble [] read0 bin_files []) [''x.bin''] =
        Some (JStr (file_content_str read0 ''x.bin''))
   \<and> doc_at (assemble_zip2json [] read0 bin_files []) [''x.bin''] =
        Some (JStr (file_content_str read0 ''x.bin''))
   \<and> build_nested_json_from_paths bin_files read0 =
        Inr [(''src'', JDict [(''a.py'', JStr ''text of src/a.py'')]),
             (''x.bin'', JStr (file_content_str read0 ''x.bin'')),
             (''y'', JDict [(''z.txt'', JStr ''text of y/z.txt'')])]"
  using C5_unreadable_file_is_absorbed[where read = read0 and p = "''x.bin''"
      and e = "''bad entry''" and sel = bin_files and cp = "[]" and xs = "[''src/a.py'']"
      and ys = "[''y/z.txt'']"]
    cp_bin_files bin_files_split read0_x_bin build_bin_files(1)
  by (simp add: segs_bin_files non_empty_segments_def)

text \<open>
  C6. Let an earlier file have left a text under the keys \<open>ks\<close>, and let the file \<open>q\<close>
  need \<open>ks\<close> as a directory. After \<open>q\<close> the keys \<open>ks\<close> lead to a dictionary: the one
  the rest of the segments of \<open>q\<close> builds from the empty dictionary. The assembly goes on
  and returns its document, and in that document \<open>ks\<close> do not lead to a text, when no
  later file is stored under exactly these keys. For both files of the repository.
\<close>

theorem C6_leaf_overwritten_by_mapping:
  "(common_prefix_of (xs @ q # ys) = Inr cp \<longrightarrow>
    doc_at (assemble cp read xs []) ks = Some (JStr v) \<longrightarrow>
    strict_prefix ks (path_segments cp q) \<longrightarrow>
      doc_at (assemble cp read (xs @ [q]) []) ks =
        Some (JDict (insert_segments (drop (length ks) (path_segments cp q))
                       (file_content_str read q) []))
      \<and> ((\<forall>r \<in> set ys. path_segments cp r \<noteq> ks) \<longrightarrow>
           build_nested_json_from_paths (xs @ q # ys) read =
             Inr (assemble cp read (xs @ q # ys) [])
           \<and> \<not> is_text (doc_at (assemble cp read (xs @ q # ys) []) ks)))
   \<and> (common_prefix_of_zip2json (xs @ q # ys) = Inr cp \<longrightarrow>
    doc_at (assemble_zip2json cp read xs []) ks = Some (JStr v) \<longrightarrow>
    prefix ks (non_empty_segments (butlast (path_segments cp q))) \<longrightarrow>
      doc_at (assemble_zip2json cp read (xs @ [q]) []) ks =
        Some (JDict (insert_segments_zip2json
                       (drop (length ks) (non_empty_segments (butlast (path_segments cp q)))
                          @ [last (path_segments cp q)])
                       (file_content_str read q) []))
      \<and> ((\<forall>r \<in> set ys. last (path_segments cp r) \<noteq> [] \<longrightarrow>
                          non_empty_segments (path_segments cp r) \<noteq> ks) \<longrightarrow>
           build_nested_json_from_paths_zip2json (xs @ q # ys) read =
             Inr (assemble_zip2json cp read (xs @ q # ys) [])
           \<and> \<not> is_text (doc_at (assemble_zip2json cp read (xs @ q # ys) []) ks)))"
proof (intro conjI impI)
  assume leaf: "doc_at (assemble cp read xs []) ks = Some (JStr v)"
    and sp: "strict_prefix ks (path_segments cp q)"
  show step: "doc_at (assemble cp read (xs @ [q]) []) ks =
        Some (JDict (insert_segments (drop (length ks) (path_segments cp q))
                       (file_content_str read q) []))"
    using assemble_file_collision[OF leaf sp, of read]
    by (simp add: assemble_append assemble_Cons)
  assume "common_prefix_of (xs @ q # ys) = Inr cp"
  then show "build_nested_json_from_paths (xs @ q # ys) read =
             Inr (assemble cp read (xs @ q # ys) [])"
    by (rule build_Inr)
  assume later: "\<forall>r \<in> set ys. path_segments cp r \<noteq> ks"
  have "\<not> is_text (doc_at (assemble cp read (xs @ [q]) []) ks)"
    unfolding step by simp
  from assemble_keeps_not_text[OF this later, of read]
  show "\<not> is_text (doc_at (assemble cp read (xs @ q # ys) []) ks)"
    by (simp add: assemble_append assemble_Cons)
next
  assume leaf: "doc_at (assemble_zip2json cp read xs []) ks = Some (JStr v)"
    and sp: "prefix ks (non_empty_segments (butlast (path_segments cp q)))"
  show step: "doc_at (assemble_zip2json cp read (xs @ [q]) []) ks =
        Some (JDict (insert_segments_zip2json
                       (drop (length ks) (non_empty_segments (butlast (path_segments cp q)))
                          @ [last (path_segments cp q)])
                       (file_content_str read q) []))"
    using assemble_file_zip2json_collision[OF leaf sp, of read]
    by (simp add: assemble_zip2json_append assemble_zip2json_Cons)
  assume "common_prefix_of_zip2json (xs @ q # ys) = Inr cp"
  then show "build_nested_json_from_paths_zip2json (xs @ q # ys) read =
             Inr (assemble_zip2json cp read (xs @ q # ys) [])"
    by (rule build_Inr)
  assume later: "\<forall>r \<in> set ys. last (path_segments cp r) \<noteq> [] \<longrightarrow>
                          non_empty_segments (path_segments cp r) \<noteq> ks"
  have "\<not> is_text (doc_at (assemble_zip2json cp read (xs @ [q]) []) ks)"
    unfolding step by simp
  from assemble_zip2json_keeps_not_text[OF this later, of read]
  show "\<not> is_text (doc_at (assemble_zip2json cp read (xs @ q # ys) []) ks)"
    by (simp add: assemble_zip2json_append assemble_zip2json_Cons)
qed

theorem C6_leaf_overwritten_by_mapping_witness:
  "doc_at (assemble [] read0 [''x/a''] []) [''x'', ''a''] = Some (JStr ''text of x/a'')
   \<and> doc_at (assemble [] read0 [''x/a'', ''x/a/b''] []) [''x'', ''a''] =
       Some (JDict [(''b'', JStr ''text of x/a/b'')])
   \<and> build_nested_json_from_paths clash_files read0 = Inr (assemble [] read0 clash_files [])
   \<and> \<not> is_text (doc_at (assemble [] read0 clash_files []) [''x'', ''a''])
   \<and> doc_at (assemble_zip2json [] read0 [''x/a''] []) [''x'', ''a''] = Some (JStr ''text of x/a'')
   \<and> doc_at (assemble_zip2json [] read0 [''x/a'', ''x/a/b''] []) [''x'', ''a''] =
       Some (JDict [(''b'', JStr ''text of x/a/b'')])
   \<and> build_nested_json_from_paths_zip2json clash_files read0 = Inr (assemble_zip2json [] read0 clash_files [])
   \<and> \<not> is_text (doc_at (assemble_zip2json [] read0 clash_files []) [''x'', ''a''])"
  using C6_leaf_overwritten_by_mapping[of "[''x/a'']" "''x/a/b''" "[''y'']" "[]" read0
      "[''x'', ''a'']" "''text of x/a''"]
    cp_clash_files leaf_clash_files
  unfolding clash_files_split[symmetric]
  by (simp add: segs_clash_files file_content_str_def read0_def non_empty_segments_def)

text \<open>
  C3. \<open>zip2json.py\<close> computes \<open>x/y/\<close>, the empty prefix and \<open>x/\<close> for the three
  lists of the claim. \<open>zip_to_json_app.py\<close> computes the same for the second and the
  third, but \<open>x/y/a.txt/\<close> for the single file \<open>x/y/a.txt\<close>: the test that decides to
  go up to the directory looks at the paths other than the common path only, and there is
  none. No path starts with that prefix, so the file is stored under \<open>x\<close>, \<open>y\<close> and
  \<open>a.txt\<close> instead of under \<open>a.txt\<close> alone.
\<close>

theorem C3_common_prefix_examples:
  "common_prefix_of [''x/y/a.txt''] = Inr ''x/y/a.txt/''
   \<and> build_nested_json_from_paths [''x/y/a.txt''] read =
       Inr [(''x'', JDict [(''y'', JDict [(''a.txt'', JStr (file_content_str read ''x/y/a.txt''))])])]
   \<and> common_prefix_of [''a.txt'', ''b.txt''] = Inr ''''
   \<and> common_prefix_of [''x/a.txt'', ''x/y/b.txt''] = Inr ''x/''
   \<and> common_prefix_of_zip2json [''x/y/a.txt''] = Inr ''x/y/''
   \<and> build_nested_json_from_paths_zip2json [''x/y/a.txt''] read =
       Inr [(''a.txt'', JStr (file_content_str read ''x/y/a.txt''))]
   \<and> common_prefix_of_zip2json [''a.txt'', ''b.txt''] = Inr ''''
   \<and> common_prefix_of_zip2json [''x/a.txt'', ''x/y/b.txt''] = Inr ''x/''"
  by code_simp

end
